theory Spec2Isabelle
  imports Complex_Main
begin

section \<open>Library functions used by the CSV loader\<close>

text \<open>
  Go strings are byte sequences; they are modelled as \<open>string\<close> (a list of 8-bit
  characters). The functions of this section are the parts of the Go standard library
  that the CSV transaction loader calls: \<open>strconv.ParseUint\<close>, \<open>strings.TrimSpace\<close>,
  \<open>strconv.Itoa\<close> and \<open>time.Parse\<close> for the one layout the loader ever uses.
\<close>

definition is_digit :: "char \<Rightarrow> bool" where
  "is_digit c = (48 \<le> (of_char c :: nat) \<and> (of_char c :: nat) \<le> 57)"

definition digit_val :: "char \<Rightarrow> nat" where
  "digit_val c = (of_char c :: nat) - 48"

subsection \<open>strconv.ParseUint(s, 10, 32)\<close>

datatype num_error = ErrSyntax | ErrRange

definition maxVal32 :: nat where
  "maxVal32 = 2 ^ 32 - 1"

definition cutoff10 :: nat where
  "cutoff10 = (2 ^ 64 - 1) div 10 + 1"

text \<open>
  The digit loop of \<open>ParseUint\<close> for base 10 and bit size 32. The accumulator is a
  \<open>uint64\<close>: the multiplication and the addition wrap modulo \<open>2 ^ 64\<close>, and the loop
  tests for that wrap-around as the source does. A byte that is not a decimal digit is a
  syntax error (a letter has a digit value of at least 10, which is not below the base).
\<close>

fun ParseUint_loop :: "nat \<Rightarrow> string \<Rightarrow> num_error + nat" where
  "ParseUint_loop n [] = Inr n"
| "ParseUint_loop n (c # cs) =
     (if \<not> is_digit c then Inl ErrSyntax
      else if n \<ge> cutoff10 then Inl ErrRange
      else
        (let m = (n * 10) mod 2 ^ 64;
             n1 = (m + digit_val c) mod 2 ^ 64
         in if n1 < m \<or> n1 > maxVal32 then Inl ErrRange
            else ParseUint_loop n1 cs))"

definition ParseUint :: "string \<Rightarrow> num_error + nat" where
  "ParseUint s = (if s = [] then Inl ErrSyntax else ParseUint_loop 0 s)"

text \<open>The number a string of decimal digits denotes.\<close>

definition dec_val :: "string \<Rightarrow> nat" where
  "dec_val s = foldl (\<lambda>n c. n * 10 + digit_val c) 0 s"

subsection \<open>strings.TrimSpace\<close>

text \<open>
  \<open>TrimSpace\<close> removes leading and trailing white space as Unicode defines it. On the
  bytes of a UTF-8 string these are the encodings of U+0009 to U+000D, U+0020, U+0085,
  U+00A0, U+1680, U+2000 to U+200A, U+2028, U+2029, U+202F, U+205F and U+3000.
\<close>

definition space_encodings :: "string list" where
  "space_encodings =
     [[CHR 0x09], [CHR 0x0A], [CHR 0x0B], [CHR 0x0C], [CHR 0x0D], [CHR 0x20],
      [CHR 0xC2, CHR 0x85], [CHR 0xC2, CHR 0xA0],
      [CHR 0xE1, CHR 0x9A, CHR 0x80],
      [CHR 0xE2, CHR 0x80, CHR 0x80], [CHR 0xE2, CHR 0x80, CHR 0x81],
      [CHR 0xE2, CHR 0x80, CHR 0x82], [CHR 0xE2, CHR 0x80, CHR 0x83],
      [CHR 0xE2, CHR 0x80, CHR 0x84], [CHR 0xE2, CHR 0x80, CHR 0x85],
      [CHR 0xE2, CHR 0x80, CHR 0x86], [CHR 0xE2, CHR 0x80, CHR 0x87],
      [CHR 0xE2, CHR 0x80, CHR 0x88], [CHR 0xE2, CHR 0x80, CHR 0x89],
      [CHR 0xE2, CHR 0x80, CHR 0x8A],
      [CHR 0xE2, CHR 0x80, CHR 0xA8], [CHR 0xE2, CHR 0x80, CHR 0xA9],
      [CHR 0xE2, CHR 0x80, CHR 0xAF], [CHR 0xE2, CHR 0x81, CHR 0x9F],
      [CHR 0xE3, CHR 0x80, CHR 0x80]]"

text \<open>The width in bytes of the white-space rune a string starts or ends with (0 if none).\<close>

definition leading_space :: "string \<Rightarrow> nat" where
  "leading_space s =
     (case find (\<lambda>p. take (length p) s = p) space_encodings of
        None \<Rightarrow> 0 | Some p \<Rightarrow> length p)"

definition trailing_space :: "string \<Rightarrow> nat" where
  "trailing_space s =
     (case find (\<lambda>p. length p \<le> length s \<and> drop (length s - length p) s = p)
             space_encodings of
        None \<Rightarrow> 0 | Some p \<Rightarrow> length p)"

function TrimLeft :: "string \<Rightarrow> string" where
  "TrimLeft s =
     (if 0 < leading_space s \<and> leading_space s \<le> length s
      then TrimLeft (drop (leading_space s) s) else s)"
  by pat_completeness auto
termination
  by (relation "measure length") auto

function TrimRight :: "string \<Rightarrow> string" where
  "TrimRight s =
     (if 0 < trailing_space s \<and> trailing_space s \<le> length s
      then TrimRight (take (length s - trailing_space s) s) else s)"
  by pat_completeness auto
termination
  by (relation "measure length") auto

declare TrimLeft.simps [simp del]
declare TrimRight.simps [simp del]

definition TrimSpace :: "string \<Rightarrow> string" where
  "TrimSpace s = TrimRight (TrimLeft s)"

subsection \<open>strconv.Itoa\<close>

fun nat_digits :: "nat \<Rightarrow> string" where
  "nat_digits n =
     (if n < 10 then [''0123456789'' ! n]
      else nat_digits (n div 10) @ [''0123456789'' ! (n mod 10)])"

declare nat_digits.simps [simp del]

definition Itoa :: "int \<Rightarrow> string" where
  "Itoa i = (if i < 0 then CHR ''-'' # nat_digits (nat (- i)) else nat_digits (nat i))"

subsection \<open>time.Parse with the layout 1/2/2006\<close>

text \<open>
  A \<open>time.Time\<close> that \<open>time.Parse\<close> builds from a layout without clock or zone is the
  calendar date at midnight UTC; it is modelled by its year, month and day.
  \<open>time.Time{}\<close>, the zero value, is January 1 of year 1.
\<close>

record Date =
  year :: int
  month :: int
  day :: int

definition zero_Time :: Date where
  "zero_Time = \<lparr>year = 1, month = 1, day = 1\<rparr>"

definition IsZero :: "Date \<Rightarrow> bool" where
  "IsZero d = (d = zero_Time)"

definition isLeap :: "int \<Rightarrow> bool" where
  "isLeap y = (y mod 4 = 0 \<and> (y mod 100 \<noteq> 0 \<or> y mod 400 = 0))"

definition daysIn :: "int \<Rightarrow> int \<Rightarrow> int" where
  "daysIn m y =
     (if m = 2 then (if isLeap y then 29 else 28)
      else if m = 4 \<or> m = 6 \<or> m = 9 \<or> m = 11 then 30 else 31)"

datatype time_error = BadValue | MonthOutOfRange | DayOutOfRange | ExtraText string

text \<open>
  \<open>getnum(s, false)\<close>: one or two leading digits as a number, and the rest of the
  string.
\<close>

fun getnum :: "string \<Rightarrow> (int \<times> string) option" where
  "getnum [] = None"
| "getnum [c] = (if is_digit c then Some (int (digit_val c), []) else None)"
| "getnum (c # d # s) =
     (if \<not> is_digit c then None
      else if \<not> is_digit d then Some (int (digit_val c), d # s)
      else Some (int (digit_val c) * 10 + int (digit_val d), s))"

text \<open>\<open>skip(value, "/")\<close>: the value must go on with the literal slash of the layout.\<close>

fun skip_slash :: "string \<Rightarrow> string option" where
  "skip_slash [] = None"
| "skip_slash (c # s) = (if c = CHR ''/'' then Some s else None)"

text \<open>
  \<open>leadingInt\<close> and \<open>atoi\<close> of package time. \<open>atoi\<close> is only called on the four bytes of
  the year, the first of which is a digit, so its sign prefix never applies.
\<close>

fun leadingInt :: "nat \<Rightarrow> string \<Rightarrow> (nat \<times> string) option" where
  "leadingInt x [] = Some (x, [])"
| "leadingInt x (c # s) =
     (if \<not> is_digit c then Some (x, c # s)
      else if x > 2 ^ 63 div 10 then None
      else (let x1 = (x * 10 + digit_val c) mod 2 ^ 64
            in if x1 > 2 ^ 63 then None else leadingInt x1 s))"

definition atoi :: "string \<Rightarrow> int option" where
  "atoi s =
     (case leadingInt 0 s of
        None \<Rightarrow> None
      | Some (q, rem) \<Rightarrow> if rem \<noteq> [] then None else Some (int q))"

text \<open>
  \<open>time.Parse("1/2/2006", value)\<close>. The layout has the chunks month (one or two
  digits), \<open>/\<close>, day (one or two digits), \<open>/\<close>, four-digit year; text left over after the
  year is an error, and the day is checked against the month's length at the end.
\<close>

definition time_Parse :: "string \<Rightarrow> time_error + Date" where
  "time_Parse v0 =
     (case getnum v0 of
        None \<Rightarrow> Inl BadValue
      | Some (mo, v1) \<Rightarrow>
          if mo \<le> 0 \<or> 12 < mo then Inl MonthOutOfRange
          else
            (case skip_slash v1 of
               None \<Rightarrow> Inl BadValue
             | Some v2 \<Rightarrow>
                 (case getnum v2 of
                    None \<Rightarrow> Inl BadValue
                  | Some (d, v3) \<Rightarrow>
                      (case skip_slash v3 of
                         None \<Rightarrow> Inl BadValue
                       | Some v4 \<Rightarrow>
                           if length v4 < 4 \<or> \<not> is_digit (hd v4) then Inl BadValue
                           else
                             (case atoi (take 4 v4) of
                                None \<Rightarrow> Inl BadValue
                              | Some y \<Rightarrow>
                                  if drop 4 v4 \<noteq> [] then Inl (ExtraText (drop 4 v4))
                                  else if d < 1 \<or> d > daysIn mo y then Inl DayOutOfRange
                                  else Inr \<lparr>year = y, month = mo, day = d\<rparr>)))))"

section \<open>The CSV transaction loader\<close>

text \<open>
  \<open>Amount\<close> is a \<open>float64\<close>. The type of amounts is a parameter \<open>'f\<close> of the model, and
  \<open>strconv.ParseFloat(s, 64)\<close> is a parameter \<open>pf\<close> of the loader's functions
  (\<open>None\<close> when it returns an error): nothing below depends on how floating-point
  numbers are read or rounded. \<open>ID\<close> is a \<open>uint\<close>; the loader only ever stores numbers
  below \<open>2 ^ 32\<close> in it.
\<close>

record 'f Transaction =
  ID :: nat
  Date :: Date
  Amount :: 'f
  AccountID :: string

record CSVTransactionLoaderConfig =
  BufferSize :: int
  ExpectedRecords :: int
  FieldsPerRecord :: int

record CSVTransactionLoader =
  dateLayout :: string
  currentYear :: int
  csvConfig :: CSVTransactionLoaderConfig

definition DefaultCSVConfig :: CSVTransactionLoaderConfig where
  "DefaultCSVConfig = \<lparr>BufferSize = 64 * 1024, ExpectedRecords = 100, FieldsPerRecord = 3\<rparr>"

text \<open>
  The constructor reads the clock once; the year it finds is the argument \<open>now_year\<close>.
  Every loader has the layout \<open>1/2/2006\<close>: the field is private and set only here, and
  \<open>time_Parse\<close> above is \<open>time.Parse\<close> for that layout.
\<close>

definition NewCSVTransactionLoaderWithConfig ::
  "int \<Rightarrow> CSVTransactionLoaderConfig \<Rightarrow> CSVTransactionLoader" where
  "NewCSVTransactionLoaderWithConfig now_year config =
     \<lparr>dateLayout = ''1/2/2006'', currentYear = now_year, csvConfig = config\<rparr>"

definition NewCSVTransactionLoader :: "int \<Rightarrow> CSVTransactionLoader" where
  "NewCSVTransactionLoader now_year = NewCSVTransactionLoaderWithConfig now_year DefaultCSVConfig"

datatype id_error = IDEmpty | IDEmptyAfterTrimming | IDNotPositiveInteger

datatype date_error = DateEmpty | DateNotMD time_error

datatype amount_error = AmountEmpty | AmountNotNumber

datatype record_error =
    FieldCount nat
  | InvalidID string id_error
  | InvalidDate string date_error
  | InvalidAmount string amount_error

definition parseIDOptimized :: "string \<Rightarrow> id_error + nat" where
  "parseIDOptimized idStr =
     (if idStr = [] then Inl IDEmpty
      else
        (case ParseUint idStr of
           Inr n \<Rightarrow> Inr n
         | Inl e \<Rightarrow>
             (let trimmed = TrimSpace idStr
              in if trimmed = [] then Inl IDEmptyAfterTrimming
                 else (case ParseUint trimmed of
                         Inl e' \<Rightarrow> Inl IDNotPositiveInteger
                       | Inr n \<Rightarrow> Inr n))))"

definition parseDateOptimized :: "CSVTransactionLoader \<Rightarrow> string \<Rightarrow> date_error + Date" where
  "parseDateOptimized loader dateStr =
     (if dateStr = [] then Inl DateEmpty
      else
        (case time_Parse (dateStr @ [CHR ''/''] @ Itoa (currentYear loader)) of
           Inl e \<Rightarrow> Inl (DateNotMD e)
         | Inr d \<Rightarrow> Inr d))"

definition parseAmountOptimized :: "(string \<Rightarrow> 'f option) \<Rightarrow> string \<Rightarrow> amount_error + 'f" where
  "parseAmountOptimized pf amountStr =
     (if amountStr = [] then Inl AmountEmpty
      else if hd amountStr \<noteq> CHR ''+'' \<and> hd amountStr \<noteq> CHR ''-'' then
        (case pf amountStr of None \<Rightarrow> Inl AmountNotNumber | Some a \<Rightarrow> Inr a)
      else if hd amountStr = CHR ''+'' then
        (case pf (tl amountStr) of None \<Rightarrow> Inl AmountNotNumber | Some a \<Rightarrow> Inr a)
      else
        (case pf amountStr of None \<Rightarrow> Inl AmountNotNumber | Some a \<Rightarrow> Inr a))"

text \<open>
  \<open>parseRecord\<close> leaves \<open>AccountID\<close> at its zero value, the empty string. Its second
  argument, the line number, is not used by the source either.
\<close>

definition parseRecord ::
  "(string \<Rightarrow> 'f option) \<Rightarrow> CSVTransactionLoader \<Rightarrow> string list \<Rightarrow> nat
     \<Rightarrow> record_error + 'f Transaction" where
  "parseRecord pf loader rec lineNumber =
     (if length rec \<noteq> 3 then Inl (FieldCount (length rec))
      else
        (case parseIDOptimized (rec ! 0) of
           Inl e \<Rightarrow> Inl (InvalidID (rec ! 0) e)
         | Inr i \<Rightarrow>
             (case parseDateOptimized loader (rec ! 1) of
                Inl e \<Rightarrow> Inl (InvalidDate (rec ! 1) e)
              | Inr d \<Rightarrow>
                  (case parseAmountOptimized pf (rec ! 2) of
                     Inl e \<Rightarrow> Inl (InvalidAmount (rec ! 2) e)
                   | Inr a \<Rightarrow> Inr \<lparr>ID = i, Date = d, Amount = a, AccountID = []\<rparr>))))"

text \<open>
  The loader reads its input through \<open>csv.Reader.Read\<close>. The input of the model is what
  the successive calls of \<open>Read\<close> return before the end of the stream: a record (the
  fields of one CSV record) or an error of the reader (\<open>'e\<close>, for instance a wrong number
  of fields). At the end of the list \<open>Read\<close> returns \<open>io.EOF\<close>. The line number of the
  loader counts these calls: the header is read as line 1.

  The context is polled once before anything is read and once at the start of each
  round of the loop: \<open>ctx k\<close> says whether the \<open>k\<close>-th poll (from 0) finds it cancelled
  or past its deadline.

  The result is Go's pair of a slice and an error; \<open>None\<close> in the first component is
  the \<open>nil\<close> slice.
\<close>

type_synonym 'e csv_read = "'e + string list"

type_synonym go_context = "nat \<Rightarrow> bool"

datatype 'e load_error =
    ContextBeforeProcessing
  | HeaderError "'e option"
  | ContextCancelledAtLine nat
  | CSVParsingError nat 'e
  | RecordValidationError nat record_error

fun load_loop ::
  "(string \<Rightarrow> 'f option) \<Rightarrow> CSVTransactionLoader \<Rightarrow> go_context \<Rightarrow> 'e csv_read list
     \<Rightarrow> 'f Transaction list \<Rightarrow> nat
     \<Rightarrow> 'f Transaction list option \<times> 'e load_error option" where
  "load_loop pf loader ctx [] transactions lineNumber =
     (if ctx (lineNumber - 1) then (None, Some (ContextCancelledAtLine lineNumber))
      else (Some transactions, None))"
| "load_loop pf loader ctx (r # rs) transactions lineNumber =
     (if ctx (lineNumber - 1) then (None, Some (ContextCancelledAtLine lineNumber))
      else
        (case r of
           Inl err \<Rightarrow> (None, Some (CSVParsingError lineNumber err))
         | Inr rec \<Rightarrow>
             (case parseRecord pf loader rec lineNumber of
                Inl err \<Rightarrow> (None, Some (RecordValidationError lineNumber err))
              | Inr transaction \<Rightarrow>
                  load_loop pf loader ctx rs (transactions @ [transaction]) (lineNumber + 1))))"

text \<open>
  \<open>HeaderError None\<close> is the failure of the first \<open>Read\<close> with \<open>io.EOF\<close> (an empty
  stream), \<open>HeaderError (Some e)\<close> its failure with the reader's error \<open>e\<close>.
\<close>

definition LoadTransactions ::
  "(string \<Rightarrow> 'f option) \<Rightarrow> CSVTransactionLoader \<Rightarrow> go_context \<Rightarrow> 'e csv_read list
     \<Rightarrow> 'f Transaction list option \<times> 'e load_error option" where
  "LoadTransactions pf loader ctx reads =
     (if ctx 0 then (None, Some ContextBeforeProcessing)
      else
        (case reads of
           [] \<Rightarrow> (None, Some (HeaderError None))
         | Inl err # rest \<Rightarrow> (None, Some (HeaderError (Some err)))
         | Inr header # rest \<Rightarrow> load_loop pf loader ctx rest [] 2))"

subsection \<open>Notions used to state the loader's properties\<close>

text \<open>
  The error that the read of line \<open>n\<close> leads to, if any: the reader's own error, or
  the validation error of \<open>parseRecord\<close> on the record read. \<open>None\<close> means that the
  line is valid.
\<close>

definition read_error ::
  "(string \<Rightarrow> 'f option) \<Rightarrow> CSVTransactionLoader \<Rightarrow> nat \<Rightarrow> 'e csv_read \<Rightarrow> 'e load_error option" where
  "read_error pf loader n r =
     (case r of
        Inl err \<Rightarrow> Some (CSVParsingError n err)
      | Inr rec \<Rightarrow>
          (case parseRecord pf loader rec n of
             Inl err \<Rightarrow> Some (RecordValidationError n err)
           | Inr t \<Rightarrow> None))"

text \<open>The line number an error message carries.\<close>

fun error_line :: "'e load_error \<Rightarrow> nat option" where
  "error_line (CSVParsingError n e) = Some n"
| "error_line (RecordValidationError n e) = Some n"
| "error_line (ContextCancelledAtLine n) = Some n"
| "error_line e = None"

text \<open>
  The errors about the content of a data line (a malformed record, a wrong number of
  fields, a field that does not parse), as opposed to cancellation and to a missing
  header.
\<close>

fun is_validation_error :: "'e load_error \<Rightarrow> bool" where
  "is_validation_error (CSVParsingError n e) = True"
| "is_validation_error (RecordValidationError n e) = True"
| "is_validation_error e = False"

text \<open>A context that is never cancelled, such as \<open>context.Background()\<close>.\<close>

definition never_cancelled :: go_context where
  "never_cancelled k = False"

subsection \<open>Example inputs\<close>

text \<open>
  The examples take amounts to be rational numbers, and \<open>ParseFloat\<close> on the few
  strings they use (every value is exactly representable as a \<open>float64\<close>).
\<close>

definition example_ParseFloat :: "string \<Rightarrow> rat option" where
  "example_ParseFloat =
     map_of [(''-150'', - 150), (''900.5'', 1801 / 2), (''99.5'', 199 / 2), (''-50'', - 50),
             (''5'', 5), (''1250.0'', 1250), (''100.00'', 100)]"

definition example_header :: "string list" where
  "example_header = [''Id'', ''Date'', ''Transaction'']"

text \<open>A first line that would be a valid data row.\<close>

definition example_data_header :: "string list" where
  "example_data_header = [''9'', ''7/15'', ''5'']"

definition example_rows :: "string list list" where
  "example_rows =
     [[''1'', ''1/1'', ''-150''], [''2'', ''1/3'', ''+900.5''],
      [''3'', ''1/15'', ''+99.5''], [''4'', ''1/20'', ''-50'']]"

definition example_transactions :: "rat Transaction list" where
  "example_transactions =
     [\<lparr>ID = 1, Date = \<lparr>year = 2024, month = 1, day = 1\<rparr>, Amount = - 150, AccountID = []\<rparr>,
      \<lparr>ID = 2, Date = \<lparr>year = 2024, month = 1, day = 3\<rparr>, Amount = 1801 / 2, AccountID = []\<rparr>,
      \<lparr>ID = 3, Date = \<lparr>year = 2024, month = 1, day = 15\<rparr>, Amount = 199 / 2, AccountID = []\<rparr>,
      \<lparr>ID = 4, Date = \<lparr>year = 2024, month = 1, day = 20\<rparr>, Amount = - 50, AccountID = []\<rparr>]"

definition example_reads :: "unit csv_read list" where
  "example_reads = Inr example_header # map Inr example_rows"

text \<open>
  The data rows of the loader's test \<open>it should successfully load transactions with
  full year dates\<close>, which expects three transactions from them.
\<close>

definition example_full_year_rows :: "string list list" where
  "example_full_year_rows =
     [[''1'', ''1/5/2022'', ''+1250.0''], [''2'', ''2/14/2023'', ''-85.5''],
      [''3'', ''12/31/2024'', ''+300.0'']]"


text \<open>A file whose only data row has the identifier 0.\<close>

definition example_zero_id_reads :: "unit csv_read list" where
  "example_zero_id_reads = [Inr example_header, Inr [''0'', ''1/1'', ''5'']]"

definition example_big_id_reads :: "unit csv_read list" where
  "example_big_id_reads =
     [Inr [''4294967296'', ''1/1'', ''100.00''], Inr [''2'', ''1/3'', ''+900.5'']]"

section \<open>The summarizer\<close>

text \<open>
  The summarizer adds, divides and compares \<open>float64\<close> amounts. These operations are
  a parameter of the model, the record \<open>ops\<close>: the constant 0, addition, division, the
  comparison \<open><\<close> and the conversion \<open>float64(n)\<close> of an \<open>int\<close>. Nothing is assumed
  about them, so what is proved holds for IEEE arithmetic with its rounding as it does
  for exact arithmetic. \<open>a > 0\<close> is read as \<open>0 < a\<close>.
\<close>

record 'f float64_ops =
  fzero :: 'f
  fadd :: "'f \<Rightarrow> 'f \<Rightarrow> 'f"
  fdiv :: "'f \<Rightarrow> 'f \<Rightarrow> 'f"
  flt :: "'f \<Rightarrow> 'f \<Rightarrow> bool"
  of_int64 :: "int \<Rightarrow> 'f"

text \<open>
  \<open>SummaryYear\<close> is a \<open>uint\<close>: the conversion of the \<open>int\<close> year wraps modulo
  \<open>2 ^ 64\<close>. \<open>time.Month\<close> is an \<open>int\<close>.
\<close>

definition SummaryYear :: "int \<Rightarrow> nat" where
  "SummaryYear y = nat (y mod 2 ^ 64)"

record 'f MonthlySummary =
  TransactionCount :: int
  AverageDebit :: 'f
  AverageCredit :: 'f

type_synonym 'f MonthlyData = "int \<rightharpoonup> 'f MonthlySummary"

type_synonym 'f YearlyData = "nat \<rightharpoonup> 'f MonthlyData"

record 'f Summary =
  TotalBalance :: 'f
  YearlyData :: "'f YearlyData"

fun total_loop :: "'f float64_ops \<Rightarrow> 'f \<Rightarrow> 'f Transaction list \<Rightarrow> 'f" where
  "total_loop ops tot [] = tot"
| "total_loop ops tot (txn # txns) = total_loop ops (fadd ops tot (Amount txn)) txns"

definition calculateTotalBalance :: "'f float64_ops \<Rightarrow> 'f Transaction list \<Rightarrow> 'f" where
  "calculateTotalBalance ops txns = total_loop ops (fzero ops) txns"

text \<open>
  The grouping loop. A year that has no entry yet gets an empty map of months; a month
  that has no entry yet reads as the \<open>nil\<close> slice, to which the transaction is
  appended.
\<close>

type_synonym 'f YearlyGroups = "nat \<rightharpoonup> (int \<rightharpoonup> 'f Transaction list)"

fun group_loop :: "'f YearlyGroups \<Rightarrow> 'f Transaction list \<Rightarrow> 'f YearlyGroups" where
  "group_loop yearlyGroups [] = yearlyGroups"
| "group_loop yearlyGroups (txn # txns) =
     (let y = SummaryYear (year (Date txn));
          m = month (Date txn);
          monthGroups = (case yearlyGroups y of None \<Rightarrow> Map.empty | Some mg \<Rightarrow> mg);
          monthTxns = (case monthGroups m of None \<Rightarrow> [] | Some l \<Rightarrow> l)
      in group_loop (yearlyGroups(y \<mapsto> monthGroups(m \<mapsto> monthTxns @ [txn]))) txns)"

definition groupTransactionsByYearAndMonth :: "'f Transaction list \<Rightarrow> 'f YearlyGroups" where
  "groupTransactionsByYearAndMonth txns = group_loop Map.empty txns"

fun separate_loop ::
  "'f float64_ops \<Rightarrow> 'f list \<Rightarrow> 'f list \<Rightarrow> 'f Transaction list \<Rightarrow> 'f list \<times> 'f list" where
  "separate_loop ops debits credits [] = (debits, credits)"
| "separate_loop ops debits credits (txn # txns) =
     (if flt ops (Amount txn) (fzero ops)
        then separate_loop ops (debits @ [Amount txn]) credits txns
      else if flt ops (fzero ops) (Amount txn)
        then separate_loop ops debits (credits @ [Amount txn]) txns
      else separate_loop ops debits credits txns)"

definition separateDebitsAndCredits ::
  "'f float64_ops \<Rightarrow> 'f Transaction list \<Rightarrow> 'f list \<times> 'f list" where
  "separateDebitsAndCredits ops txns = separate_loop ops [] [] txns"

fun sum_loop :: "'f float64_ops \<Rightarrow> 'f \<Rightarrow> 'f list \<Rightarrow> 'f" where
  "sum_loop ops s [] = s"
| "sum_loop ops s (v # vs) = sum_loop ops (fadd ops s v) vs"

definition calculateAverage :: "'f float64_ops \<Rightarrow> 'f list \<Rightarrow> 'f" where
  "calculateAverage ops vs =
     (if length vs = 0 then fzero ops
      else fdiv ops (sum_loop ops (fzero ops) vs) (of_int64 ops (int (length vs))))"

text \<open>
  The two nested loops over the groups visit every key once, in no fixed order, and
  store one value per key: the result has an entry exactly where the groups have one.
\<close>

definition monthlySummary :: "'f float64_ops \<Rightarrow> 'f Transaction list \<Rightarrow> 'f MonthlySummary" where
  "monthlySummary ops monthTxns =
     (case separateDebitsAndCredits ops monthTxns of
        (debits, credits) \<Rightarrow>
          \<lparr>TransactionCount = int (length monthTxns),
           AverageDebit = calculateAverage ops debits,
           AverageCredit = calculateAverage ops credits\<rparr>)"

definition computeMonthlyDataFromYearlyGroups ::
  "'f float64_ops \<Rightarrow> 'f YearlyGroups \<Rightarrow> 'f YearlyData" where
  "computeMonthlyDataFromYearlyGroups ops yearlyGroups =
     (\<lambda>y. case yearlyGroups y of
             None \<Rightarrow> None
           | Some monthGroups \<Rightarrow>
               Some (\<lambda>m. case monthGroups m of
                            None \<Rightarrow> None
                          | Some monthTxns \<Rightarrow> Some (monthlySummary ops monthTxns)))"

definition calculateYearlyData :: "'f float64_ops \<Rightarrow> 'f Transaction list \<Rightarrow> 'f YearlyData" where
  "calculateYearlyData ops txns =
     computeMonthlyDataFromYearlyGroups ops (groupTransactionsByYearAndMonth txns)"

definition CalculateSummary :: "'f float64_ops \<Rightarrow> 'f Transaction list \<Rightarrow> 'f Summary" where
  "CalculateSummary ops txns =
     (if length txns = 0 then \<lparr>TotalBalance = fzero ops, YearlyData = Map.empty\<rparr>
      else \<lparr>TotalBalance = calculateTotalBalance ops txns,
            YearlyData = calculateYearlyData ops txns\<rparr>)"

subsection \<open>Notions used to state the summarizer's properties\<close>

text \<open>The transactions of a list that are dated in the bucket of a year and a month.\<close>

definition in_bucket :: "nat \<Rightarrow> int \<Rightarrow> 'f Transaction \<Rightarrow> bool" where
  "in_bucket y m txn = (SummaryYear (year (Date txn)) = y \<and> month (Date txn) = m)"

definition bucket :: "nat \<Rightarrow> int \<Rightarrow> 'f Transaction list \<Rightarrow> 'f Transaction list" where
  "bucket y m txns = filter (in_bucket y m) txns"

text \<open>
  A debit is an amount below zero; a credit is an amount above zero (the code asks this
  second, of an amount that is not below zero). An amount that is neither, as zero is,
  is in neither set.
\<close>

definition is_debit :: "'f float64_ops \<Rightarrow> 'f \<Rightarrow> bool" where
  "is_debit ops a = flt ops a (fzero ops)"

definition is_credit :: "'f float64_ops \<Rightarrow> 'f \<Rightarrow> bool" where
  "is_credit ops a = (flt ops (fzero ops) a \<and> \<not> flt ops a (fzero ops))"

text \<open>The sum from left to right, starting from zero, and the mean it gives.\<close>

definition sequential_sum :: "'f float64_ops \<Rightarrow> 'f list \<Rightarrow> 'f" where
  "sequential_sum ops vs = foldl (fadd ops) (fzero ops) vs"

definition arithmetic_mean :: "'f float64_ops \<Rightarrow> 'f list \<Rightarrow> 'f" where
  "arithmetic_mean ops vs =
     (if vs = [] then fzero ops
      else fdiv ops (sequential_sum ops vs) (of_int64 ops (int (length vs))))"

text \<open>Exact arithmetic on rational numbers, for the examples.\<close>

definition rat_ops :: "rat float64_ops" where
  "rat_ops = \<lparr>fzero = 0, fadd = (+), fdiv = (/), flt = (<), of_int64 = of_int\<rparr>"

text \<open>Two transactions of January 2024 with the amounts 0 and 100.\<close>

definition example_zero_amounts :: "rat Transaction list" where
  "example_zero_amounts =
     [\<lparr>ID = 1, Date = \<lparr>year = 2024, month = 1, day = 5\<rparr>, Amount = 0, AccountID = []\<rparr>,
      \<lparr>ID = 2, Date = \<lparr>year = 2024, month = 1, day = 9\<rparr>, Amount = 100, AccountID = []\<rparr>]"

section \<open>The DynamoDB transactions repository\<close>

text \<open>
  The repository talks to DynamoDB through \<open>client.BatchWriteItem\<close>, draws a UUID for
  every item, formats the date and marshals the item. These collaborators are the
  parameter \<open>env\<close> of the model. They act on the state \<open>'w\<close> of the world outside
  the program (the table, the source of randomness): \<open>BatchWriteItem\<close> takes the
  request items, a map from table names to lists of write requests, and returns either
  an error (\<open>None\<close>) or the unprocessed items of its response. \<open>'i\<close> is the type of a
  marshalled item.
\<close>

datatype 'i WriteRequest = PutRequest 'i

type_synonym 'i RequestItems = "string \<rightharpoonup> 'i WriteRequest list"

record 'f DynamoTransaction =
  DynamoID :: string
  InternalID :: nat
  DynamoDate :: string
  DynamoAmount :: 'f
  DynamoAccountID :: string

record ('w, 'f, 'i) dynamo_env =
  new_uuid :: "'w \<Rightarrow> string \<times> 'w"
  format_date :: "Date \<Rightarrow> string"
  MarshalMap :: "'f DynamoTransaction \<Rightarrow> 'i option"
  BatchWriteItem :: "'w \<Rightarrow> 'i RequestItems \<Rightarrow> 'i RequestItems option \<times> 'w"

text \<open>
  The state the repository's functions pass on is the world together with a history of
  the calls of \<open>BatchWriteItem\<close> made so far. The history is not in the source; it
  records, for each call, whether it is the first write of a batch (and of which
  transactions) or the retry of a given number, the request sent and the response.
\<close>

datatype 'f call_kind = InitialWrite "'f Transaction list" | RetryWrite nat

record ('f, 'i) store_call =
  kind :: "'f call_kind"
  request :: "'i RequestItems"
  response :: "'i RequestItems option"

record ('w, 'f, 'i) repo_state =
  world :: 'w
  calls :: "('f, 'i) store_call list"

definition call_client ::
  "('w, 'f, 'i) dynamo_env \<Rightarrow> 'f call_kind \<Rightarrow> ('w, 'f, 'i) repo_state \<Rightarrow> 'i RequestItems
     \<Rightarrow> 'i RequestItems option \<times> ('w, 'f, 'i) repo_state" where
  "call_client env k st input =
     (case BatchWriteItem env (world st) input of
        (result, w) \<Rightarrow>
          (result,
           \<lparr>world = w,
            calls = calls st @ [\<lparr>kind = k, request = input, response = result\<rparr>]\<rparr>))"

datatype save_error =
    MarshalFailed nat
  | BatchWriteFailed
  | RetryFailed nat
  | RetriesExhausted nat nat
  | BatchFailedAt nat save_error

definition batchSize :: nat where
  "batchSize = 25"

definition maxRetries :: nat where
  "maxRetries = 3"

text \<open>
  \<open>len(m)\<close> of a Go map is its number of keys: \<open>len(m) > 0\<close> says that the map is not
  empty, also when the lists it holds are. A key that is absent reads as the \<open>nil\<close>
  slice.
\<close>

definition items_of :: "'i RequestItems \<Rightarrow> string \<Rightarrow> 'i WriteRequest list" where
  "items_of m tableName = (case m tableName of None \<Rightarrow> [] | Some l \<Rightarrow> l)"

function retry_loop ::
  "('w, 'f, 'i) dynamo_env \<Rightarrow> ('w, 'f, 'i) repo_state \<Rightarrow> 'i RequestItems \<Rightarrow> nat
     \<Rightarrow> (save_error + 'i RequestItems) \<times> ('w, 'f, 'i) repo_state" where
  "retry_loop env st unprocessedItems retryCount =
     (if unprocessedItems \<noteq> Map.empty \<and> retryCount < maxRetries then
        (case call_client env (RetryWrite (retryCount + 1)) st unprocessedItems of
           (None, st1) \<Rightarrow> (Inl (RetryFailed (retryCount + 1)), st1)
         | (Some unprocessed, st1) \<Rightarrow> retry_loop env st1 unprocessed (retryCount + 1))
      else (Inr unprocessedItems, st))"
  by pat_completeness auto
termination
  by (relation "measure (\<lambda>(env, st, u, retryCount). maxRetries - retryCount)") auto

declare retry_loop.simps [simp del]

definition handleUnprocessedItems ::
  "('w, 'f, 'i) dynamo_env \<Rightarrow> string \<Rightarrow> ('w, 'f, 'i) repo_state \<Rightarrow> 'i RequestItems
     \<Rightarrow> save_error option \<times> ('w, 'f, 'i) repo_state" where
  "handleUnprocessedItems env tableName st unprocessedItems =
     (case retry_loop env st unprocessedItems 0 of
        (Inl err, st1) \<Rightarrow> (Some err, st1)
      | (Inr unprocessed, st1) \<Rightarrow>
          if unprocessed \<noteq> Map.empty
          then (Some (RetriesExhausted maxRetries (length (items_of unprocessed tableName))), st1)
          else (None, st1))"

text \<open>The loop of \<open>saveBatch\<close> that builds the write requests of a batch.\<close>

fun build_requests ::
  "('w, 'f, 'i) dynamo_env \<Rightarrow> 'w \<Rightarrow> 'i WriteRequest list \<Rightarrow> 'f Transaction list
     \<Rightarrow> (save_error + 'i WriteRequest list) \<times> 'w" where
  "build_requests env w writeRequests [] = (Inr writeRequests, w)"
| "build_requests env w writeRequests (transaction # rest) =
     (case new_uuid env w of
        (primaryID, w1) \<Rightarrow>
          (case MarshalMap env
                  \<lparr>DynamoID = primaryID, InternalID = ID transaction,
                   DynamoDate = format_date env (Date transaction),
                   DynamoAmount = Amount transaction,
                   DynamoAccountID = AccountID transaction\<rparr> of
             None \<Rightarrow> (Inl (MarshalFailed (ID transaction)), w1)
           | Some item \<Rightarrow> build_requests env w1 (writeRequests @ [PutRequest item]) rest))"

definition saveBatch ::
  "('w, 'f, 'i) dynamo_env \<Rightarrow> string \<Rightarrow> ('w, 'f, 'i) repo_state \<Rightarrow> 'f Transaction list
     \<Rightarrow> save_error option \<times> ('w, 'f, 'i) repo_state" where
  "saveBatch env tableName st transactions =
     (case build_requests env (world st) [] transactions of
        (Inl err, w1) \<Rightarrow> (Some err, st\<lparr>world := w1\<rparr>)
      | (Inr writeRequests, w1) \<Rightarrow>
          (case call_client env (InitialWrite transactions) (st\<lparr>world := w1\<rparr>)
                  [tableName \<mapsto> writeRequests] of
             (None, st1) \<Rightarrow> (Some BatchWriteFailed, st1)
           | (Some unprocessed, st1) \<Rightarrow>
               if unprocessed \<noteq> Map.empty
               then handleUnprocessedItems env tableName st1 unprocessed
               else (None, st1)))"

text \<open>The loop of \<open>Save\<close>; \<open>transactions[i:end]\<close> is \<open>take (end - i) (drop i transactions)\<close>.\<close>

function save_loop ::
  "('w, 'f, 'i) dynamo_env \<Rightarrow> string \<Rightarrow> ('w, 'f, 'i) repo_state \<Rightarrow> 'f Transaction list \<Rightarrow> nat
     \<Rightarrow> save_error option \<times> ('w, 'f, 'i) repo_state" where
  "save_loop env tableName st transactions i =
     (if i < length transactions then
        (let end = (if i + batchSize > length transactions then length transactions
                    else i + batchSize);
             batch = take (end - i) (drop i transactions)
         in case saveBatch env tableName st batch of
              (Some err, st1) \<Rightarrow> (Some (BatchFailedAt i err), st1)
            | (None, st1) \<Rightarrow> save_loop env tableName st1 transactions (i + batchSize))
      else (None, st))"
  by pat_completeness auto
termination
  by (relation "measure (\<lambda>(env, tableName, st, transactions, i). length transactions - i)")
     (auto simp: batchSize_def)

declare save_loop.simps [simp del]

definition Save ::
  "('w, 'f, 'i) dynamo_env \<Rightarrow> string \<Rightarrow> ('w, 'f, 'i) repo_state \<Rightarrow> 'f Transaction list
     \<Rightarrow> save_error option \<times> ('w, 'f, 'i) repo_state" where
  "Save env tableName st transactions =
     (if length transactions = 0 then (None, st)
      else save_loop env tableName st transactions 0)"

subsection \<open>Notions used to state the repository's properties\<close>

text \<open>The consecutive slices of at most \<open>n\<close> elements of a list.\<close>

function batches :: "nat \<Rightarrow> 'a list \<Rightarrow> 'a list list" where
  "batches n xs = (if n = 0 \<or> xs = [] then [] else take n xs # batches n (drop n xs))"
  by pat_completeness auto
termination
  by (relation "measure (\<lambda>(n, xs). length xs)") auto

declare batches.simps [simp del]

text \<open>The batches whose first write is in a history, in the order of the calls.\<close>

fun initial_batches :: "('f, 'i) store_call list \<Rightarrow> 'f Transaction list list" where
  "initial_batches [] = []"
| "initial_batches (c # cs) =
     (case kind c of
        InitialWrite b \<Rightarrow> b # initial_batches cs
      | RetryWrite k \<Rightarrow> initial_batches cs)"

text \<open>
  The calls made for one batch: a first write followed by the retries 1, 2, ... in
  order and at most \<open>maxRetries\<close> of them, each retry sending exactly the unprocessed
  items of the response before it, which are not empty.
\<close>

fun retries_from :: "nat \<Rightarrow> 'i RequestItems \<Rightarrow> ('f, 'i) store_call list \<Rightarrow> bool" where
  "retries_from k u [] = True"
| "retries_from k u (c # cs) =
     (kind c = RetryWrite k \<and> k \<le> maxRetries \<and> u \<noteq> Map.empty \<and> request c = u \<and>
      (case cs of
         [] \<Rightarrow> True
       | d # ds \<Rightarrow>
           (case response c of None \<Rightarrow> False | Some u1 \<Rightarrow> retries_from (Suc k) u1 cs)))"

definition batch_calls ::
  "string \<Rightarrow> 'f Transaction list \<Rightarrow> ('f, 'i) store_call list \<Rightarrow> bool" where
  "batch_calls tableName batch cs =
     (case cs of
        [] \<Rightarrow> False
      | c # rest \<Rightarrow>
          kind c = InitialWrite batch \<and>
          (\<exists>writeRequests. request c = [tableName \<mapsto> writeRequests] \<and>
               length writeRequests = length batch) \<and>
          (case rest of
             [] \<Rightarrow> True
           | d # ds \<Rightarrow>
               (case response c of None \<Rightarrow> False | Some u \<Rightarrow> retries_from 1 u rest)))"

text \<open>
  The calls of a history are the calls the store has received: from the world \<open>w\<close>,
  \<open>BatchWriteItem\<close> has been called with the request of each call in turn, has given
  the response recorded for it, and has left the world \<open>w'\<close> in the end.
\<close>

fun store_run ::
  "('w, 'f, 'i) dynamo_env \<Rightarrow> 'w \<Rightarrow> ('f, 'i) store_call list \<Rightarrow> 'w \<Rightarrow> bool" where
  "store_run env w [] w' = (w' = w)"
| "store_run env w (c # cs) w' =
     (case BatchWriteItem env w (request c) of
        (result, w1) \<Rightarrow> result = response c \<and> store_run env w1 cs w')"

text \<open>
  What the calls made for a batch say of its outcome, by the last response: an error of
  the client, no unprocessed items, or unprocessed items that remain.
\<close>

definition batch_outcome :: "string \<Rightarrow> ('f, 'i) store_call list \<Rightarrow> save_error option" where
  "batch_outcome tableName cs =
     (case response (last cs) of
        None \<Rightarrow> Some (if length cs = 1 then BatchWriteFailed else RetryFailed (length cs - 1))
      | Some u \<Rightarrow>
          if u = Map.empty then None
          else Some (RetriesExhausted maxRetries (length (items_of u tableName))))"

text \<open>
  Saving slices one after the other, each with \<open>saveBatch\<close>, and stopping at the
  first one that fails, with the index at which that slice starts in the error.
\<close>

fun save_slices ::
  "('w, 'f, 'i) dynamo_env \<Rightarrow> string \<Rightarrow> ('w, 'f, 'i) repo_state \<Rightarrow> nat
     \<Rightarrow> 'f Transaction list list \<Rightarrow> save_error option \<times> ('w, 'f, 'i) repo_state" where
  "save_slices env tableName st i [] = (None, st)"
| "save_slices env tableName st i (b # bs) =
     (case saveBatch env tableName st b of
        (Some err, st1) \<Rightarrow> (Some (BatchFailedAt i err), st1)
      | (None, st1) \<Rightarrow> save_slices env tableName st1 (i + batchSize) bs)"

text \<open>
  A run of \<open>Save\<close> over the batches \<open>bs\<close>, the first of which starts at index \<open>i\<close>:
  the groups of calls made, one group per batch in the order of the batches, and the
  result. Every batch with a group but the last has succeeded; the run ends with the
  first batch that fails, either before its first write (no group) or by the outcome of
  its calls.
\<close>

fun save_run ::
  "string \<Rightarrow> nat \<Rightarrow> 'f Transaction list list \<Rightarrow> ('f, 'i) store_call list list
     \<Rightarrow> save_error option \<Rightarrow> bool" where
  "save_run tableName i [] [] r = (r = None)"
| "save_run tableName i [] (g # gs) r = False"
| "save_run tableName i (b # bs) [] r =
     (case r of
        Some (BatchFailedAt j (MarshalFailed n)) \<Rightarrow> j = i
      | _ \<Rightarrow> False)"
| "save_run tableName i (b # bs) (g # gs) r =
     (batch_calls tableName b g \<and>
      (case batch_outcome tableName g of
         None \<Rightarrow> save_run tableName (i + batchSize) bs gs r
       | Some e \<Rightarrow> gs = [] \<and> r = Some (BatchFailedAt i e)))"

subsection \<open>Example stores\<close>

text \<open>
  In the examples the world holds a counter for the UUIDs, the items the table has
  stored, and the number of calls the store has received. A marshalled item is
  represented by the \<open>internal_id\<close> attribute it carries.
\<close>

record example_world =
  uuid_counter :: nat
  written :: "nat list"
  store_calls :: nat

definition example_table :: string where
  "example_table = ''transactions''"

fun put_item :: "'i WriteRequest \<Rightarrow> 'i" where
  "put_item (PutRequest item) = item"

definition example_new_uuid :: "example_world \<Rightarrow> string \<times> example_world" where
  "example_new_uuid w =
     (''uuid-'' @ nat_digits (uuid_counter w), w\<lparr>uuid_counter := uuid_counter w + 1\<rparr>)"

text \<open>A store that writes every item of every request.\<close>

definition accepting_write ::
  "example_world \<Rightarrow> nat RequestItems \<Rightarrow> nat RequestItems option \<times> example_world" where
  "accepting_write w input =
     (Some Map.empty,
      w\<lparr>written := written w @ map put_item (items_of input example_table),
        store_calls := store_calls w + 1\<rparr>)"

text \<open>A store whose every call fails with an error.\<close>

definition failing_write ::
  "example_world \<Rightarrow> nat RequestItems \<Rightarrow> nat RequestItems option \<times> example_world" where
  "failing_write w input = (None, w\<lparr>store_calls := store_calls w + 1\<rparr>)"

text \<open>A store that never writes the first item of a request and returns it unprocessed.\<close>

definition stuck_write ::
  "example_world \<Rightarrow> nat RequestItems \<Rightarrow> nat RequestItems option \<times> example_world" where
  "stuck_write w input =
     (case items_of input example_table of
        [] \<Rightarrow> (Some Map.empty, w\<lparr>store_calls := store_calls w + 1\<rparr>)
      | r # rs \<Rightarrow>
          (Some [example_table \<mapsto> [r]],
           w\<lparr>written := written w @ map put_item rs, store_calls := store_calls w + 1\<rparr>))"

text \<open>
  A store that leaves the first \<open>k\<close> items of the first request it receives
  unprocessed, and writes everything from then on.
\<close>

definition flaky_write ::
  "nat \<Rightarrow> example_world \<Rightarrow> nat RequestItems \<Rightarrow> nat RequestItems option \<times> example_world" where
  "flaky_write k w input =
     (if store_calls w = 0 then
        (Some (if take k (items_of input example_table) = [] then Map.empty
               else [example_table \<mapsto> take k (items_of input example_table)]),
         w\<lparr>written := written w @ map put_item (drop k (items_of input example_table)),
           store_calls := 1\<rparr>)
      else accepting_write w input)"

definition example_env ::
  "(example_world \<Rightarrow> nat RequestItems \<Rightarrow> nat RequestItems option \<times> example_world)
     \<Rightarrow> (example_world, rat, nat) dynamo_env" where
  "example_env write =
     \<lparr>new_uuid = example_new_uuid,
      format_date = (\<lambda>d. Itoa (year d) @ ''-'' @ Itoa (month d) @ ''-'' @ Itoa (day d)),
      MarshalMap = (\<lambda>d. Some (InternalID d)),
      BatchWriteItem = write\<rparr>"

definition example_state :: "(example_world, rat, nat) repo_state" where
  "example_state = \<lparr>world = \<lparr>uuid_counter = 0, written = [], store_calls = 0\<rparr>, calls = []\<rparr>"

text \<open>Lists of transactions with the identifiers 1 to 3 and 1 to 26.\<close>

definition example_txn :: "nat \<Rightarrow> rat Transaction" where
  "example_txn k =
     \<lparr>ID = k, Date = \<lparr>year = 2024, month = 1, day = 1\<rparr>, Amount = 5, AccountID = ''acc''\<rparr>"

definition example_three :: "rat Transaction list" where
  "example_three = map example_txn [1, 2, 3]"

definition example_26 :: "rat Transaction list" where
  "example_26 = map example_txn [1, 2, 3, 4, 5, 6, 7, 8, 9, 10, 11, 12, 13, 14, 15, 16, 17, 18,
     19, 20, 21, 22, 23, 24, 25, 26]"

section \<open>Facts about the library functions and the parsers of the fields\<close>

text \<open>
  \<open>ParseUint\<close> on a string of digits gives the number it denotes when that is at most
  \<open>2 ^ 32 - 1\<close> and a range error otherwise; whatever it returns is below \<open>2 ^ 32\<close>.
\<close>

lemma foldl_dec_mono: "n \<le> foldl (\<lambda>n c. n * 10 + digit_val c) n s"
proof (induction s arbitrary: n)
  case Nil show ?case by simp
next
  case (Cons c s)
  have "n \<le> n * 10 + digit_val c" by simp
  also have "\<dots> \<le> foldl (\<lambda>n c. n * 10 + digit_val c) (n * 10 + digit_val c) s" by (rule Cons.IH)
  finally show ?case by simp
qed

lemma digit_val_le9: "is_digit c \<Longrightarrow> digit_val c \<le> 9"
  unfolding is_digit_def digit_val_def by arith

lemma ParseUint_loop_digits:
  "list_all is_digit s \<Longrightarrow> n \<le> maxVal32 \<Longrightarrow>
   ParseUint_loop n s =
     (if foldl (\<lambda>n c. n * 10 + digit_val c) n s \<le> maxVal32
      then Inr (foldl (\<lambda>n c. n * 10 + digit_val c) n s) else Inl ErrRange)"
proof (induction s arbitrary: n)
  case Nil then show ?case by simp
next
  case (Cons c s)
  let ?f = "\<lambda>n c. n * 10 + digit_val c"
  from Cons.prems have dc: "is_digit c" and ds: "list_all is_digit s" by simp_all
  have d9: "digit_val c \<le> 9" using dc by (rule digit_val_le9)
  have ncut: "\<not> n \<ge> cutoff10" using Cons.prems(2) by (simp add: cutoff10_def maxVal32_def)
  have small: "n * 10 + digit_val c < 2 ^ 64" using Cons.prems(2) d9 by (simp add: maxVal32_def)
  have m: "(n * 10) mod 2 ^ 64 = n * 10" using small by simp
  have n1: "((n * 10) mod 2 ^ 64 + digit_val c) mod 2 ^ 64 = n * 10 + digit_val c"
    using small by simp
  show ?case
  proof (cases "n * 10 + digit_val c > maxVal32")
    case True
    have "maxVal32 < foldl ?f (n * 10 + digit_val c) s"
      using True foldl_dec_mono [of "n * 10 + digit_val c" s] by linarith
    then show ?thesis using dc ncut True m n1 by (simp add: Let_def)
  next
    case False
    then have le: "n * 10 + digit_val c \<le> maxVal32" by simp
    show ?thesis using dc ncut False Cons.IH [OF ds le] m n1 by (simp add: Let_def)
  qed
qed

lemma ParseUint_digits:
  "s \<noteq> [] \<Longrightarrow> list_all is_digit s \<Longrightarrow>
   ParseUint s = (if dec_val s \<le> maxVal32 then Inr (dec_val s) else Inl ErrRange)"
  using ParseUint_loop_digits [of s 0] by (simp add: ParseUint_def dec_val_def)

lemma ParseUint_loop_bound:
  "ParseUint_loop n s = Inr v \<Longrightarrow> n \<le> maxVal32 \<Longrightarrow> v \<le> maxVal32"
proof (induction s arbitrary: n)
  case Nil then show ?case by simp
next
  case (Cons c s)
  then show ?case by (auto simp: Let_def split: if_splits)
qed

lemma ParseUint_bound: "ParseUint s = Inr v \<Longrightarrow> v < 2 ^ 32"
  using ParseUint_loop_bound [of 0 s v] by (auto simp: ParseUint_def maxVal32_def split: if_splits)

lemma parseIDOptimized_bound: "parseIDOptimized s = Inr v \<Longrightarrow> v < 2 ^ 32"
  by (auto simp: parseIDOptimized_def Let_def split: if_splits sum.splits dest: ParseUint_bound)

text \<open>\<open>TrimSpace\<close> leaves a string of digits as it is.\<close>

lemma space_encodings_props:
  "p \<in> set space_encodings \<Longrightarrow> p \<noteq> [] \<and> \<not> is_digit (hd p) \<and> \<not> is_digit (last p)"
  by (auto simp: space_encodings_def is_digit_def)

lemma leading_space_digit: "list_all is_digit s \<Longrightarrow> leading_space s = 0"
proof -
  assume ds: "list_all is_digit s"
  have "\<not> (\<exists>p. p \<in> set space_encodings \<and> take (length p) s = p)"
  proof
    assume "\<exists>p. p \<in> set space_encodings \<and> take (length p) s = p"
    then obtain p where p: "p \<in> set space_encodings" and t: "take (length p) s = p" by blast
    from space_encodings_props [OF p] have ne: "p \<noteq> []" and nd: "\<not> is_digit (hd p)" by simp_all
    from t ne have "s \<noteq> []" by auto
    with t ne have "hd p = hd s" by (metis hd_take length_greater_0_conv)
    with ds \<open>s \<noteq> []\<close> nd show False by (cases s) auto
  qed
  then have "find (\<lambda>p. take (length p) s = p) space_encodings = None"
    by (simp add: find_None_iff)
  then show ?thesis by (simp add: leading_space_def)
qed

lemma trailing_space_digit: "list_all is_digit s \<Longrightarrow> trailing_space s = 0"
proof -
  assume ds: "list_all is_digit s"
  have "\<not> (\<exists>p. p \<in> set space_encodings \<and> length p \<le> length s \<and> drop (length s - length p) s = p)"
  proof
    assume "\<exists>p. p \<in> set space_encodings \<and> length p \<le> length s \<and> drop (length s - length p) s = p"
    then obtain p where p: "p \<in> set space_encodings" and l: "length p \<le> length s"
      and t: "drop (length s - length p) s = p" by blast
    from space_encodings_props [OF p] have ne: "p \<noteq> []" and nd: "\<not> is_digit (last p)" by simp_all
    from l ne have sne: "s \<noteq> []" by auto
    from l ne have "length s - length p < length s" by (cases p) auto
    then have "last (drop (length s - length p) s) = last s" by (rule last_drop)
    with t have "last p = last s" by simp
    moreover from ds sne have "is_digit (last s)" by (simp add: list_all_iff)
    ultimately show False using nd by simp
  qed
  then have "find (\<lambda>p. length p \<le> length s \<and> drop (length s - length p) s = p) space_encodings = None"
    by (simp add: find_None_iff)
  then show ?thesis by (simp add: trailing_space_def)
qed

lemma TrimSpace_digits: "list_all is_digit s \<Longrightarrow> TrimSpace s = s"
  by (simp add: TrimSpace_def TrimLeft.simps [of s] TrimRight.simps [of s]
        leading_space_digit trailing_space_digit)

lemma parseIDOptimized_too_large:
  assumes "s \<noteq> []" "list_all is_digit s" "dec_val s > 4294967295"
  shows "parseIDOptimized s = Inl IDNotPositiveInteger"
proof -
  have "ParseUint s = Inl ErrRange"
    using assms by (simp add: ParseUint_digits maxVal32_def)
  then show ?thesis using assms(1,2) by (simp add: parseIDOptimized_def TrimSpace_digits)
qed

text \<open>
  What \<open>time.Parse\<close> accepts for the layout \<open>1/2/2006\<close>: one or two digits, a
  slash, one or two digits, a slash, four digits, and nothing else.
\<close>

lemma getnum_SomeD:
  "getnum v = Some (n, r) \<Longrightarrow>
   \<exists>a. v = a @ r \<and> a \<noteq> [] \<and> length a \<le> 2 \<and> list_all is_digit a \<and> n = int (dec_val a)"
proof (cases v rule: getnum.cases)
  case 1 then show "getnum v = Some (n, r) \<Longrightarrow> ?thesis" by simp
next
  case (2 c)
  assume "getnum v = Some (n, r)"
  with 2 have "is_digit c" "n = int (digit_val c)" "r = []" by (auto split: if_splits)
  with 2 show ?thesis by (intro exI [of _ "[c]"]) (simp add: dec_val_def)
next
  case (3 c d s)
  assume g: "getnum v = Some (n, r)"
  show ?thesis
  proof (cases "is_digit d")
    case True
    with g 3 have "is_digit c" "n = int (digit_val c) * 10 + int (digit_val d)" "r = s"
      by (auto split: if_splits)
    with 3 True show ?thesis by (intro exI [of _ "[c, d]"]) (simp add: dec_val_def)
  next
    case False
    with g 3 have "is_digit c" "n = int (digit_val c)" "r = d # s"
      by (auto split: if_splits)
    with 3 show ?thesis by (intro exI [of _ "[c]"]) (simp add: dec_val_def)
  qed
qed

lemma skip_slash_SomeD: "skip_slash v = Some r \<Longrightarrow> v = CHR ''/'' # r"
  by (cases v) (auto split: if_splits)

lemma leadingInt_all:
  "leadingInt x s = Some (q, []) \<Longrightarrow>
   list_all is_digit s \<and> q = foldl (\<lambda>n c. n * 10 + digit_val c) x s"
proof (induction s arbitrary: x)
  case Nil then show ?case by simp
next
  case (Cons c s)
  from Cons.prems have dc: "is_digit c" by (auto split: if_splits)
  from Cons.prems dc have xs: "\<not> x > 2 ^ 63 div 10" by (auto split: if_splits)
  have d9: "digit_val c \<le> 9" using dc by (rule digit_val_le9)
  have small: "x * 10 + digit_val c < 2 ^ 64" using xs d9 by simp
  then have md: "(x * 10 + digit_val c) mod 2 ^ 64 = x * 10 + digit_val c" by simp
  from Cons.prems dc xs md have "leadingInt (x * 10 + digit_val c) s = Some (q, [])"
    by (auto simp: Let_def split: if_splits)
  from Cons.IH [OF this] dc show ?case by simp
qed

lemma atoi_SomeD: "atoi p = Some y \<Longrightarrow> list_all is_digit p \<and> y = int (dec_val p)"
  by (auto simp: atoi_def dec_val_def split: option.splits prod.splits if_splits dest: leadingInt_all)

lemma time_Parse_InrD:
  assumes "time_Parse v = Inr d"
  shows "\<exists>a b y4. v = a @ ''/'' @ b @ ''/'' @ y4 \<and>
           a \<noteq> [] \<and> length a \<le> 2 \<and> list_all is_digit a \<and>
           b \<noteq> [] \<and> length b \<le> 2 \<and> list_all is_digit b \<and>
           length y4 = 4 \<and> list_all is_digit y4 \<and>
           d = \<lparr>year = int (dec_val y4), month = int (dec_val a), day = int (dec_val b)\<rparr> \<and>
           1 \<le> month d \<and> month d \<le> 12 \<and> 1 \<le> day d \<and> day d \<le> daysIn (month d) (year d)"
proof -
  from assms obtain mo v1 where g1: "getnum v = Some (mo, v1)"
    by (auto simp: time_Parse_def split: option.splits)
  from assms g1 have mo: "\<not> (mo \<le> 0 \<or> 12 < mo)"
    by (auto simp: time_Parse_def split: if_splits)
  from assms g1 mo obtain v2 where s1: "skip_slash v1 = Some v2"
    by (auto simp: time_Parse_def split: option.splits)
  from assms g1 mo s1 obtain dd v3 where g2: "getnum v2 = Some (dd, v3)"
    by (auto simp: time_Parse_def split: option.splits)
  from assms g1 mo s1 g2 obtain v4 where s2: "skip_slash v3 = Some v4"
    by (auto simp: time_Parse_def split: option.splits)
  from assms g1 mo s1 g2 s2 have l4: "\<not> (length v4 < 4 \<or> \<not> is_digit (hd v4))"
    by (auto simp: time_Parse_def split: if_splits)
  from assms g1 mo s1 g2 s2 l4 obtain y where a4: "atoi (take 4 v4) = Some y"
    by (auto simp: time_Parse_def split: option.splits)
  from assms g1 mo s1 g2 s2 l4 a4 have rest: "drop 4 v4 = []"
    and dok: "\<not> (dd < 1 \<or> dd > daysIn mo y)"
    and d: "d = \<lparr>year = y, month = mo, day = dd\<rparr>"
    by (auto simp: time_Parse_def split: if_splits)
  from rest have t4: "take 4 v4 = v4" by simp
  from l4 rest have len4: "length v4 = 4" by simp
  from getnum_SomeD [OF g1] obtain a where a: "v = a @ v1" "a \<noteq> []" "length a \<le> 2"
    "list_all is_digit a" "mo = int (dec_val a)" by blast
  from getnum_SomeD [OF g2] obtain b where b: "v2 = b @ v3" "b \<noteq> []" "length b \<le> 2"
    "list_all is_digit b" "dd = int (dec_val b)" by blast
  from atoi_SomeD [OF a4] t4 have y: "list_all is_digit v4" "y = int (dec_val v4)" by simp_all
  have "v = a @ ''/'' @ b @ ''/'' @ v4"
    using a(1) b(1) skip_slash_SomeD [OF s1] skip_slash_SomeD [OF s2] by simp
  with a b y len4 d mo dok show ?thesis
    by (intro exI [of _ a] exI [of _ b] exI [of _ v4]) simp
qed

lemma digit_chars:
  "k < 10 \<Longrightarrow> is_digit (''0123456789'' ! k) \<and> digit_val (''0123456789'' ! k) = k"
proof -
  assume "k < 10"
  then have "k = 0 \<or> k = 1 \<or> k = 2 \<or> k = 3 \<or> k = 4 \<or> k = 5 \<or> k = 6 \<or> k = 7 \<or> k = 8 \<or> k = 9"
    by arith
  then show ?thesis by (auto simp: is_digit_def digit_val_def)
qed

lemma nat_digits_digits: "list_all is_digit (nat_digits n)"
proof (induction n rule: nat_digits.induct)
  case (1 n)
  show ?case
  proof (cases "n < 10")
    case True then show ?thesis by (simp add: nat_digits.simps [of n] digit_chars)
  next
    case False
    then show ?thesis using 1 by (simp add: nat_digits.simps [of n] digit_chars)
  qed
qed

lemma dec_val_snoc: "dec_val (s @ [c]) = dec_val s * 10 + digit_val c"
  by (simp add: dec_val_def)

lemma dec_val_nat_digits: "dec_val (nat_digits n) = n"
proof (induction n rule: nat_digits.induct)
  case (1 n)
  show ?case
  proof (cases "n < 10")
    case True then show ?thesis by (simp add: nat_digits.simps [of n] digit_chars dec_val_def)
  next
    case False
    then show ?thesis using 1 by (simp add: nat_digits.simps [of n] digit_chars dec_val_snoc)
  qed
qed

lemma nat_digits_nonempty: "nat_digits n \<noteq> []"
  by (simp add: nat_digits.simps [of n])

lemma length_nat_digits_4: "length (nat_digits n) = 4 \<longleftrightarrow> 1000 \<le> n \<and> n < 10000"
proof -
  have l: "length (nat_digits m) = (if m < 10 then 1 else Suc (length (nat_digits (m div 10))))" for m
    by (simp add: nat_digits.simps [of m])
  have pos: "0 < length (nat_digits m)" for m using nat_digits_nonempty [of m] by simp
  have d: "n div 10 div 10 = n div 100" "n div 100 div 10 = n div 1000" "n div 1000 div 10 = n div 10000"
    by (simp_all add: div_mult2_eq [symmetric])
  show ?thesis
    using pos [of "n div 10000"]
    by (simp add: l [of n] l [of "n div 10"] l [of "n div 100"] l [of "n div 1000"] d) arith
qed

lemma slash_not_digit: "is_digit c \<Longrightarrow> c \<noteq> CHR ''/''"
  by (auto simp: is_digit_def)

lemma minus_not_digit: "\<not> is_digit (CHR ''-'')"
  by (simp add: is_digit_def)

lemma digits_no_slash: "list_all is_digit s \<Longrightarrow> CHR ''/'' \<notin> set s"
  by (auto simp: list_all_iff dest: slash_not_digit)

lemma Itoa_no_slash: "CHR ''/'' \<notin> set (Itoa i)"
  using digits_no_slash [OF nat_digits_digits] by (simp add: Itoa_def)

lemma last_field_unique:
  assumes "u @ [c] @ x = w @ [c] @ z" "c \<notin> set x" "c \<notin> set z"
  shows "u = w \<and> x = z"
proof -
  have A: "takeWhile (\<lambda>a. a \<noteq> c) (rev (u @ [c] @ x)) = rev x"
    using assms(2) by (auto simp: takeWhile_tail)
  have B: "takeWhile (\<lambda>a. a \<noteq> c) (rev (w @ [c] @ z)) = rev z"
    using assms(3) by (auto simp: takeWhile_tail)
  have "rev x = takeWhile (\<lambda>a. a \<noteq> c) (rev (u @ [c] @ x))" by (rule A [symmetric])
  also have "\<dots> = takeWhile (\<lambda>a. a \<noteq> c) (rev (w @ [c] @ z))" by (simp only: assms(1))
  also have "\<dots> = rev z" by (rule B)
  finally have "x = z" by simp
  with assms(1) show ?thesis by simp
qed

lemma Itoa_digits_D:
  assumes "list_all is_digit (Itoa i)"
  shows "0 \<le> i \<and> int (dec_val (Itoa i)) = i"
proof -
  have "\<not> i < 0" using assms minus_not_digit by (auto simp: Itoa_def)
  then show ?thesis by (simp add: Itoa_def dec_val_nat_digits)
qed

text \<open>
  What \<open>parseDateOptimized\<close> accepts: the year it appends being the text after the
  last slash, the field itself is \<open>M/D\<close>, the date has the loader's year, and that
  year has four digits.
\<close>

lemma parseDateOptimized_InrD:
  assumes "parseDateOptimized loader s = Inr d"
  shows "\<exists>a b. s = a @ ''/'' @ b \<and>
           a \<noteq> [] \<and> length a \<le> 2 \<and> list_all is_digit a \<and>
           b \<noteq> [] \<and> length b \<le> 2 \<and> list_all is_digit b \<and>
           d = \<lparr>year = currentYear loader, month = int (dec_val a), day = int (dec_val b)\<rparr> \<and>
           1000 \<le> currentYear loader \<and> currentYear loader \<le> 9999 \<and>
           1 \<le> month d \<and> month d \<le> 12 \<and> 1 \<le> day d \<and> day d \<le> daysIn (month d) (year d)"
proof -
  let ?Y = "Itoa (currentYear loader)"
  from assms have tp: "time_Parse (s @ [CHR ''/''] @ ?Y) = Inr d"
    by (auto simp: parseDateOptimized_def split: if_splits sum.splits)
  from time_Parse_InrD [OF tp] obtain a b y4 where
    v: "s @ [CHR ''/''] @ ?Y = a @ ''/'' @ b @ ''/'' @ y4" and
    a: "a \<noteq> []" "length a \<le> 2" "list_all is_digit a" and
    b: "b \<noteq> []" "length b \<le> 2" "list_all is_digit b" and
    y4: "length y4 = 4" "list_all is_digit y4" and
    d: "d = \<lparr>year = int (dec_val y4), month = int (dec_val a), day = int (dec_val b)\<rparr>" and
    r: "1 \<le> month d" "month d \<le> 12" "1 \<le> day d" "day d \<le> daysIn (month d) (year d)"
    by blast
  from v have "s @ [CHR ''/''] @ ?Y = (a @ ''/'' @ b) @ [CHR ''/''] @ y4" by simp
  from last_field_unique [OF this Itoa_no_slash digits_no_slash [OF y4(2)]]
  have s: "s = a @ ''/'' @ b" and Y: "?Y = y4" by simp_all
  from Y y4 have "list_all is_digit ?Y" by simp
  from Itoa_digits_D [OF this] have nn: "0 \<le> currentYear loader"
    and yv: "int (dec_val ?Y) = currentYear loader" by simp_all
  from nn Y y4(1) have "length (nat_digits (nat (currentYear loader))) = 4"
    by (simp add: Itoa_def)
  then have rng: "1000 \<le> currentYear loader" "currentYear loader \<le> 9999"
    unfolding length_nat_digits_4 by linarith+
  from d Y yv have d': "d = \<lparr>year = currentYear loader, month = int (dec_val a), day = int (dec_val b)\<rparr>"
    by simp
  from s a b d' rng r show ?thesis by blast
qed

lemma getnum_digits:
  assumes "a \<noteq> []" "length a \<le> 2" "list_all is_digit a"
  shows "getnum (a @ CHR ''/'' # r) = Some (int (dec_val a), CHR ''/'' # r)"
proof -
  have ns: "\<not> is_digit (CHR ''/'')" by (simp add: is_digit_def)
  from assms(1,2) consider c where "a = [c]" | c d where "a = [c, d]"
    by (cases a; cases "tl a") auto
  then show ?thesis
  proof cases
    case 1
    with assms(3) ns show ?thesis by (simp add: dec_val_def)
  next
    case 2
    with assms(3) show ?thesis by (simp add: dec_val_def)
  qed
qed

lemma leadingInt_digits:
  "list_all is_digit s \<Longrightarrow> foldl (\<lambda>n c. n * 10 + digit_val c) x s \<le> 2 ^ 63 div 10 \<Longrightarrow>
   leadingInt x s = Some (foldl (\<lambda>n c. n * 10 + digit_val c) x s, [])"
proof (induction s arbitrary: x)
  case Nil
  show ?case by simp
next
  case (Cons c s)
  let ?f = "\<lambda>n c. n * 10 + digit_val c"
  from Cons.prems(1) have dc: "is_digit c" and ds: "list_all is_digit s" by simp_all
  have m1: "x * 10 + digit_val c \<le> foldl ?f (x * 10 + digit_val c) s" by (rule foldl_dec_mono)
  with Cons.prems(2) have b1: "x * 10 + digit_val c \<le> 2 ^ 63 div 10" by simp
  then have bx: "\<not> x > 2 ^ 63 div 10" by simp
  from b1 have md: "(x * 10 + digit_val c) mod 2 ^ 64 = x * 10 + digit_val c" by simp
  from b1 have b2: "\<not> x * 10 + digit_val c > 2 ^ 63" by simp
  from Cons.prems(2) have "foldl ?f (x * 10 + digit_val c) s \<le> 2 ^ 63 div 10" by simp
  from Cons.IH [OF ds this] dc bx b2 md show ?case by (simp add: Let_def)
qed

lemma atoi_digits:
  "list_all is_digit s \<Longrightarrow> dec_val s \<le> 9999 \<Longrightarrow> atoi s = Some (int (dec_val s))"
  using leadingInt_digits [of s 0] by (simp add: atoi_def dec_val_def)

text \<open>
  A date field \<open>M/D\<close> (one or two digits each, a month from 1 to 12 and a day that the
  month has in the loader's year) is accepted by a loader whose year has four digits,
  and gives that day of the loader's year.
\<close>

lemma parseDateOptimized_MD:
  assumes y: "1000 \<le> currentYear loader" "currentYear loader \<le> 9999"
      and a: "a \<noteq> []" "length a \<le> 2" "list_all is_digit a"
      and b: "b \<noteq> []" "length b \<le> 2" "list_all is_digit b"
      and m: "1 \<le> dec_val a" "dec_val a \<le> 12"
      and d: "1 \<le> dec_val b" "int (dec_val b) \<le> daysIn (int (dec_val a)) (currentYear loader)"
  shows "parseDateOptimized loader (a @ ''/'' @ b) =
         Inr \<lparr>year = currentYear loader, month = int (dec_val a), day = int (dec_val b)\<rparr>"
proof -
  define n where "n = nat (currentYear loader)"
  define y4 where "y4 = nat_digits n"
  from y have n: "1000 \<le> n" "n < 10000" "int n = currentYear loader" by (simp_all add: n_def)
  have It: "Itoa (currentYear loader) = y4" using y by (simp add: Itoa_def y4_def n_def)
  have l4: "length y4 = 4" unfolding y4_def length_nat_digits_4 using n by simp
  have dg: "list_all is_digit y4" unfolding y4_def by (rule nat_digits_digits)
  have dv: "dec_val y4 = n" unfolding y4_def by (rule dec_val_nat_digits)
  from l4 obtain c cs where y4c: "y4 = c # cs" by (cases y4) auto
  with dg have hd: "is_digit (hd y4)" by simp
  have at: "atoi y4 = Some (currentYear loader)"
    using atoi_digits [OF dg] dv n by simp
  have g1: "getnum (a @ CHR ''/'' # b @ CHR ''/'' # y4) =
      Some (int (dec_val a), CHR ''/'' # b @ CHR ''/'' # y4)"
    using a by (rule getnum_digits)
  have g2: "getnum (b @ CHR ''/'' # y4) = Some (int (dec_val b), CHR ''/'' # y4)"
    using b by (rule getnum_digits)
  have "time_Parse (a @ CHR ''/'' # b @ CHR ''/'' # y4) =
      Inr \<lparr>year = currentYear loader, month = int (dec_val a), day = int (dec_val b)\<rparr>"
    using m d l4 hd at by (simp add: time_Parse_def g1 g2)
  moreover have "(a @ ''/'' @ b) @ [CHR ''/''] @ Itoa (currentYear loader) =
      a @ CHR ''/'' # b @ CHR ''/'' # y4" by (simp add: It)
  ultimately show ?thesis using a(1) by (simp add: parseDateOptimized_def)
qed

text \<open>
  A date field that is accepted has exactly one slash: a field with a year of its own,
  as in \<open>M/D/YYYY\<close>, is rejected by every loader.
\<close>

lemma parseDateOptimized_one_slash:
  assumes "parseDateOptimized loader s = Inr d"
  shows "count_list s (CHR ''/'') = 1"
proof -
  from parseDateOptimized_InrD [OF assms] obtain a b where
    s: "s = a @ ''/'' @ b" and a: "list_all is_digit a" and b: "list_all is_digit b"
    by blast
  from digits_no_slash [OF a] digits_no_slash [OF b]
  have "count_list a (CHR ''/'') = 0" "count_list b (CHR ''/'') = 0"
    by (simp_all add: count_list_0_iff)
  with s show ?thesis by simp
qed

text \<open>The loop of \<open>LoadTransactions\<close>.\<close>

lemma load_loop_well_formed:
  assumes "\<forall>k. \<not> ctx k"
  shows "length ts = length rows \<Longrightarrow>
     \<forall>i < length rows. parseRecord pf loader (rows ! i) (i + n) = Inr (ts ! i) \<Longrightarrow>
     load_loop pf loader ctx (map Inr rows) acc n = (Some (acc @ ts), None)"
proof (induction rows arbitrary: ts acc n)
  case Nil
  then show ?case using assms by simp
next
  case (Cons r rows)
  from Cons.prems(1) obtain t ts' where ts: "ts = t # ts'" by (cases ts) auto
  from Cons.prems(2) have h: "parseRecord pf loader r n = Inr t"
    using ts by (auto dest: spec [of _ 0])
  have "\<forall>i < length rows. parseRecord pf loader (rows ! i) (i + Suc n) = Inr (ts' ! i)"
  proof (intro allI impI)
    fix i assume "i < length rows"
    then have "Suc i < length (r # rows)" by simp
    with Cons.prems(2) have "parseRecord pf loader ((r # rows) ! Suc i) (Suc i + n) = Inr (ts ! Suc i)"
      by blast
    then show "parseRecord pf loader (rows ! i) (i + Suc n) = Inr (ts' ! i)" using ts by simp
  qed
  with Cons.IH [of ts' "Suc n" "acc @ [t]"] Cons.prems(1) ts
  show ?case using assms h by simp
qed


lemma read_error_props:
  "read_error pf loader n r = Some e \<Longrightarrow> error_line e = Some n \<and> is_validation_error e"
  by (auto simp: read_error_def split: sum.splits)

lemma load_loop_some_invalid:
  assumes "\<forall>k. \<not> ctx k"
  shows "r \<in> set reads \<Longrightarrow> \<forall>n. read_error pf loader n r \<noteq> None \<Longrightarrow>
     \<exists>e. load_loop pf loader ctx reads acc n = (None, Some e) \<and> is_validation_error e"
proof (induction reads arbitrary: acc n)
  case Nil
  then show ?case by simp
next
  case (Cons r' reads)
  show ?case
  proof (cases "read_error pf loader n r'")
    case None
    then obtain rec t where r: "r' = Inr rec" "parseRecord pf loader rec n = Inr t"
      by (auto simp: read_error_def split: sum.splits)
    from Cons.prems(2) have "read_error pf loader n r \<noteq> None" by blast
    with None have "r \<noteq> r'" by auto
    with Cons.prems(1) have "r \<in> set reads" by simp
    from Cons.IH [OF this Cons.prems(2)] show ?thesis using assms r by simp
  next
    case (Some e)
    then have "load_loop pf loader ctx (r' # reads) acc n = (None, Some e)"
      using assms by (auto simp: read_error_def split: sum.splits)
    with read_error_props [OF Some] show ?thesis by simp
  qed
qed

lemma load_loop_results:
  "load_loop pf loader ctx reads acc n = (Some ts, err) \<Longrightarrow> t \<in> set ts \<Longrightarrow>
   t \<in> set acc \<or> (\<exists>rec k. parseRecord pf loader rec k = Inr t)"
proof (induction reads arbitrary: acc n)
  case Nil
  then show ?case by (auto split: if_splits)
next
  case (Cons r reads)
  from Cons.prems(1) obtain rec t' where r: "r = Inr rec" "parseRecord pf loader rec n = Inr t'"
    and l: "load_loop pf loader ctx reads (acc @ [t']) (n + 1) = (Some ts, err)"
    by (auto split: if_splits sum.splits)
  from Cons.IH [OF l Cons.prems(2)] r show ?case by auto
qed

lemma parseRecord_InrD:
  "parseRecord pf loader rec k = Inr t \<Longrightarrow>
   length rec = 3 \<and> parseIDOptimized (rec ! 0) = Inr (ID t) \<and>
   parseDateOptimized loader (rec ! 1) = Inr (Date t) \<and>
   parseAmountOptimized pf (rec ! 2) = Inr (Amount t) \<and> AccountID t = []"
  by (auto simp: parseRecord_def split: if_splits sum.splits)

section \<open>Properties of the CSV transaction loader\<close>

lemmas loader_eval =
  LoadTransactions_def parseRecord_def parseIDOptimized_def ParseUint_def is_digit_def
  digit_val_def maxVal32_def cutoff10_def parseDateOptimized_def time_Parse_def Itoa_def
  nat_digits.simps atoi_def daysIn_def isLeap_def parseAmountOptimized_def
  example_ParseFloat_def never_cancelled_def NewCSVTransactionLoader_def
  NewCSVTransactionLoaderWithConfig_def example_header_def read_error_def

lemma example_load:
  "LoadTransactions example_ParseFloat (NewCSVTransactionLoader 2024) never_cancelled
     example_reads = (Some example_transactions, None)"
  by (simp add: loader_eval example_reads_def example_rows_def example_transactions_def)

text \<open>
  Claim C1. A date field is accepted as \<open>M/D\<close> and as \<open>M/D/YYYY\<close>. The loader appends
  \<open>/\<close> and its year to every date field before it parses the result with the layout
  \<open>1/2/2006\<close>, so that a field which already has a year is left with text after the
  year and is rejected: with a loader built in 2024, the row \<open>1,1/5/2022,+1250.0\<close> of
  the loader's own test for dates with a year fails the load at line 2. No loader
  accepts a date field with two slashes (\<open>parseDateOptimized_one_slash\<close>); the form
  \<open>M/D\<close> is accepted and gives the loader's year (\<open>parseDateOptimized_MD\<close>).
\<close>

theorem full_year_date_is_rejected:
  "LoadTransactions pf (NewCSVTransactionLoader 2024) never_cancelled
     [Inr header, Inr [''1'', ''1/5/2022'', ''+1250.0'']] =
   (None, Some (RecordValidationError 2
      (InvalidDate ''1/5/2022'' (DateNotMD (ExtraText ''/2024'')))))"
  by (simp add: loader_eval)

text \<open>
  Claim C2. Every transaction of a successful load has a non-zero identifier and a set
  date. The loader accepts whatever \<open>ParseUint\<close> accepts, and that includes 0: the
  row \<open>0,1/1,5\<close> is loaded with the identifier 0.
\<close>

theorem zero_id_is_loaded:
  "LoadTransactions example_ParseFloat (NewCSVTransactionLoader 2024) never_cancelled
     example_zero_id_reads =
   (Some [\<lparr>ID = 0, Date = \<lparr>year = 2024, month = 1, day = 1\<rparr>, Amount = 5, AccountID = []\<rparr>],
    None)"
  by (simp add: loader_eval example_zero_id_reads_def)

text \<open>
  Claim C2, as the code has it. Whatever the stream and the context, every transaction
  of a successful load has an identifier below \<open>2 ^ 32\<close> (0 is possible) and a date
  that is set: its year is the loader's year, which has four digits, and its month and
  day exist in that year.
\<close>

theorem loaded_ids_and_dates:
  assumes "LoadTransactions pf loader ctx reads = (Some ts, err)"
      and "t \<in> set ts"
  shows "ID t < 2 ^ 32 \<and> \<not> IsZero (Date t) \<and>
         year (Date t) = currentYear loader \<and> 1000 \<le> year (Date t) \<and> year (Date t) \<le> 9999 \<and>
         1 \<le> month (Date t) \<and> month (Date t) \<le> 12 \<and>
         1 \<le> day (Date t) \<and> day (Date t) \<le> daysIn (month (Date t)) (year (Date t))"
proof -
  from assms(1) obtain rest where "load_loop pf loader ctx rest [] 2 = (Some ts, err)"
    by (auto simp: LoadTransactions_def split: if_splits list.splits sum.splits)
  from load_loop_results [OF this assms(2)] obtain rec k
    where "parseRecord pf loader rec k = Inr t" by auto
  from parseRecord_InrD [OF this]
  have i: "parseIDOptimized (rec ! 0) = Inr (ID t)"
    and d: "parseDateOptimized loader (rec ! 1) = Inr (Date t)" by simp_all
  from parseDateOptimized_InrD [OF d] obtain a b where
    dt: "Date t = \<lparr>year = currentYear loader, month = int (dec_val a), day = int (dec_val b)\<rparr>"
    and r: "1000 \<le> currentYear loader" "currentYear loader \<le> 9999"
      "1 \<le> month (Date t)" "month (Date t) \<le> 12" "1 \<le> day (Date t)"
      "day (Date t) \<le> daysIn (month (Date t)) (year (Date t))"
    by blast
  from dt have y: "year (Date t) = currentYear loader" by simp
  with r(1) have "\<not> IsZero (Date t)" by (auto simp: IsZero_def zero_Time_def)
  with parseIDOptimized_bound [OF i] y r show ?thesis by simp
qed

theorem loaded_ids_and_dates_witness:
  "LoadTransactions example_ParseFloat (NewCSVTransactionLoader 2024) never_cancelled
     example_reads = (Some example_transactions, None) \<and>
   example_transactions ! 1 \<in> set example_transactions \<and>
   ID (example_transactions ! 1) < 2 ^ 32 \<and> \<not> IsZero (Date (example_transactions ! 1)) \<and>
   year (Date (example_transactions ! 1)) = 2024"
proof -
  have m: "example_transactions ! 1 \<in> set example_transactions"
    by (simp add: example_transactions_def)
  from loaded_ids_and_dates [OF example_load m] example_load m show ?thesis
    by (simp add: NewCSVTransactionLoader_def NewCSVTransactionLoaderWithConfig_def)
qed

text \<open>
  The rows that the loader accepts are loaded in their order. When the context is not
  cancelled, the header is read, and \<open>parseRecord\<close> accepts row \<open>i\<close> with the transaction
  \<open>ts ! i\<close>, the loader returns exactly these transactions in the order of the rows; the
  header, whatever it holds, gives no transaction; and a stream with only a header gives
  the empty slice, not \<open>nil\<close>. The rows with dates of the form \<open>M/D\<close> are of this kind.
\<close>

lemma LoadTransactions_well_formed:
  assumes "\<forall>k. \<not> ctx k"
      and "length ts = length rows"
      and "\<forall>i < length rows. parseRecord pf loader (rows ! i) (i + 2) = Inr (ts ! i)"
  shows "LoadTransactions pf loader ctx (Inr header # map Inr rows) = (Some ts, None) \<and>
         LoadTransactions pf loader ctx [Inr header] = (Some [], None)"
proof -
  have c0: "\<not> ctx 0" and c1: "\<not> ctx (Suc 0)" using assms(1) by simp_all
  have "load_loop pf loader ctx (map Inr rows) [] 2 = (Some ([] @ ts), None)"
    using assms(2,3) by (intro load_loop_well_formed [OF assms(1)]) simp_all
  then show ?thesis using c0 c1 by (simp add: LoadTransactions_def)
qed

lemma LoadTransactions_well_formed_example:
  "LoadTransactions example_ParseFloat (NewCSVTransactionLoader 2024) never_cancelled
     (Inr example_data_header # map Inr example_rows) =
     (Some example_transactions, None :: unit load_error option) \<and>
   LoadTransactions example_ParseFloat (NewCSVTransactionLoader 2024) never_cancelled
     [Inr example_data_header] = (Some [], None :: unit load_error option)"
proof -
  have h1: "\<forall>k. \<not> never_cancelled k" by (simp add: never_cancelled_def)
  have h2: "length example_transactions = length example_rows"
    by (simp add: example_transactions_def example_rows_def)
  have h3: "\<forall>i < length example_rows.
      parseRecord example_ParseFloat (NewCSVTransactionLoader 2024) (example_rows ! i) (i + 2) =
      Inr (example_transactions ! i)"
    by (simp add: example_rows_def example_transactions_def All_less_Suc loader_eval)
  show ?thesis by (rule LoadTransactions_well_formed [OF h1 h2 h3])
qed

text \<open>
  Claim C3. A well-formed input with \<open>N\<close> data rows gives exactly \<open>N\<close> transactions in
  the order of the rows. The rows of the loader's own test for dates with a year are
  well formed, with dates of the form \<open>M/D/YYYY\<close>, and the test expects three
  transactions from them. Whatever the year of the loader, the header and the parsing of
  amounts, the load of these three rows returns \<open>nil\<close> and the error that the date
  \<open>1/5/2022\<close> of line 2 is not of the form \<open>M/D\<close>: the loader appends \<open>/\<close> and its year to
  every date field, and so accepts no field with two slashes.
\<close>

theorem full_year_rows_are_not_loaded:
  "\<exists>e. LoadTransactions pf loader never_cancelled
          (Inr header # map Inr example_full_year_rows) =
        (None, Some (RecordValidationError 2 (InvalidDate ''1/5/2022'' (DateNotMD e))))"
proof (cases "parseDateOptimized loader ''1/5/2022''")
  case (Inl e')
  then obtain e where e: "e' = DateNotMD e"
    by (auto simp: parseDateOptimized_def split: sum.splits)
  from Inl e have "parseRecord pf loader [''1'', ''1/5/2022'', ''+1250.0''] 2 =
      Inl (InvalidDate ''1/5/2022'' (DateNotMD e))"
    by (simp add: parseRecord_def parseIDOptimized_def ParseUint_def is_digit_def
        digit_val_def maxVal32_def cutoff10_def)
  then have "LoadTransactions pf loader never_cancelled
      (Inr header # map Inr example_full_year_rows) =
      (None, Some (RecordValidationError 2 (InvalidDate ''1/5/2022'' (DateNotMD e))))"
    by (simp add: LoadTransactions_def never_cancelled_def example_full_year_rows_def)
  then show ?thesis ..
next
  case (Inr d)
  from parseDateOptimized_one_slash [OF this] show ?thesis by simp
qed



text \<open>
  Claim C10. A data row whose identifier is a string of digits that denotes a number
  above \<open>2 ^ 32 - 1\<close> is rejected (\<open>ParseUint\<close> is called with bit size 32), so a
  stream with such a row fails as a whole with a validation error (the context is not
  cancelled and the header is read).
\<close>

theorem LoadTransactions_id_above_32_bits:
  assumes "\<forall>k. \<not> ctx k"
      and "Inr [idStr, dateStr, amountStr] \<in> set reads"
      and "idStr \<noteq> []" and "list_all is_digit idStr" and "dec_val idStr > 4294967295"
  shows "(\<forall>n. parseRecord pf loader [idStr, dateStr, amountStr] n =
            Inl (InvalidID idStr IDNotPositiveInteger)) \<and>
         (\<exists>e. LoadTransactions pf loader ctx (Inr header # reads) = (None, Some e) \<and>
              is_validation_error e)"
proof -
  have p: "parseRecord pf loader [idStr, dateStr, amountStr] n =
      Inl (InvalidID idStr IDNotPositiveInteger)" for n
    using parseIDOptimized_too_large [OF assms(3,4,5)] by (simp add: parseRecord_def)
  then have "\<forall>n. read_error pf loader n (Inr [idStr, dateStr, amountStr]) \<noteq> None"
    by (simp add: read_error_def)
  from load_loop_some_invalid [OF assms(1,2) this, of "[]" 2]
  have l: "\<exists>e. load_loop pf loader ctx reads [] 2 = (None, Some e) \<and> is_validation_error e" .
  have c0: "\<not> ctx 0" using assms(1) by simp
  from l c0 p show ?thesis by (simp add: LoadTransactions_def)
qed

theorem LoadTransactions_id_above_32_bits_witness:
  "(\<forall>n. parseRecord example_ParseFloat (NewCSVTransactionLoader 2024)
          [''4294967296'', ''1/1'', ''100.00''] n =
        Inl (InvalidID ''4294967296'' IDNotPositiveInteger)) \<and>
   (\<exists>e. LoadTransactions example_ParseFloat (NewCSVTransactionLoader 2024) never_cancelled
          (Inr example_header # example_big_id_reads) = (None, Some e) \<and>
        is_validation_error e)"
proof -
  have h1: "\<forall>k. \<not> never_cancelled k" by (simp add: never_cancelled_def)
  have h2: "Inr [''4294967296'', ''1/1'', ''100.00''] \<in> set example_big_id_reads"
    by (simp add: example_big_id_reads_def)
  have h3: "''4294967296'' \<noteq> []" by simp
  have h4: "list_all is_digit ''4294967296''" by (simp add: is_digit_def)
  have h5: "dec_val ''4294967296'' > 4294967295" by (simp add: dec_val_def digit_val_def)
  show ?thesis by (rule LoadTransactions_id_above_32_bits [OF h1 h2 h3 h4 h5])
qed

section \<open>Properties of the summarizer\<close>

lemma total_loop_foldl:
  "total_loop ops tot txns = foldl (fadd ops) tot (map Amount txns)"
  by (induction txns arbitrary: tot) simp_all

lemma sum_loop_foldl: "sum_loop ops s vs = foldl (fadd ops) s vs"
  by (induction vs arbitrary: s) simp_all

lemma calculateAverage_mean: "calculateAverage ops vs = arithmetic_mean ops vs"
  by (simp add: calculateAverage_def arithmetic_mean_def sequential_sum_def sum_loop_foldl)

lemma separate_loop_filter:
  "separate_loop ops debits credits txns =
     (debits @ filter (is_debit ops) (map Amount txns),
      credits @ filter (is_credit ops) (map Amount txns))"
  by (induction txns arbitrary: debits credits) (simp_all add: is_debit_def is_credit_def)

text \<open>The slice a group holds, \<open>nil\<close> where the group has no entry.\<close>

lemma group_loop_entry:
  "(case group_loop g txns y of
      None \<Rightarrow> []
    | Some mg \<Rightarrow> (case mg m of None \<Rightarrow> [] | Some l \<Rightarrow> l)) =
   (case g y of
      None \<Rightarrow> []
    | Some mg \<Rightarrow> (case mg m of None \<Rightarrow> [] | Some l \<Rightarrow> l)) @ bucket y m txns"
proof (induction txns arbitrary: g)
  case Nil
  show ?case by (simp add: bucket_def)
next
  case (Cons txn txns)
  show ?case
    by (simp add: Cons.IH Let_def bucket_def in_bucket_def split: option.splits)
qed

lemma group_step_present:
  "(\<exists>mg l. (g(y0 \<mapsto> (case g y0 of None \<Rightarrow> Map.empty | Some mg \<Rightarrow> mg)(m0 \<mapsto> l0))) y = Some mg \<and>
       mg m = Some l) \<longleftrightarrow>
   (\<exists>mg l. g y = Some mg \<and> mg m = Some l) \<or> (y0 = y \<and> m0 = m)"
  by (cases "g y0") auto

lemma group_loop_present:
  "(\<exists>mg l. group_loop g txns y = Some mg \<and> mg m = Some l) \<longleftrightarrow>
   (\<exists>mg l. g y = Some mg \<and> mg m = Some l) \<or> bucket y m txns \<noteq> []"
proof (induction txns arbitrary: g)
  case Nil
  show ?case by (simp add: bucket_def)
next
  case (Cons txn txns)
  have b: "bucket y m (txn # txns) \<noteq> [] \<longleftrightarrow>
      (SummaryYear (year (Date txn)) = y \<and> month (Date txn) = m) \<or> bucket y m txns \<noteq> []"
    by (auto simp: bucket_def in_bucket_def)
  show ?case
    unfolding group_loop.simps Let_def Cons.IH group_step_present b by blast
qed

lemma groups_entry:
  assumes "groupTransactionsByYearAndMonth txns y = Some mg" and "mg m = Some l"
  shows "l = bucket y m txns"
  using group_loop_entry [where g = Map.empty and txns = txns and y = y and m = m] assms
  by (simp add: groupTransactionsByYearAndMonth_def)

lemma groups_present:
  "(\<exists>mg l. groupTransactionsByYearAndMonth txns y = Some mg \<and> mg m = Some l) \<longleftrightarrow>
   bucket y m txns \<noteq> []"
  using group_loop_present [where g = Map.empty and txns = txns and y = y and m = m]
  by (simp add: groupTransactionsByYearAndMonth_def)

text \<open>
  The summary has a bucket for a year and a month exactly when some transaction of the
  list is dated in it: no bucket is filled with zeros.
\<close>

lemma CalculateSummary_bucket_present:
  "(\<exists>monthly s. YearlyData (CalculateSummary ops txns) y = Some monthly \<and> monthly m = Some s)
     \<longleftrightarrow> bucket y m txns \<noteq> []"
proof (cases "txns = []")
  case True
  then show ?thesis by (simp add: CalculateSummary_def bucket_def)
next
  case False
  have "(\<exists>monthly s. computeMonthlyDataFromYearlyGroups ops
            (groupTransactionsByYearAndMonth txns) y = Some monthly \<and> monthly m = Some s)
     \<longleftrightarrow> (\<exists>mg l. groupTransactionsByYearAndMonth txns y = Some mg \<and> mg m = Some l)"
    by (auto simp: computeMonthlyDataFromYearlyGroups_def split: option.splits)
  with False groups_present [of txns y m] show ?thesis
    by (simp add: CalculateSummary_def calculateYearlyData_def)
qed

text \<open>
  Claim C5. For every bucket of a year and a month in the summary of a list of
  transactions: the count is the number of transactions of the list dated in the bucket;
  the average debit is the mean of the bucket's amounts below zero, in their order, and
  zero if there is none; the average credit is the same for the amounts above zero. A
  transaction with the amount zero is counted like any other, and zero is in neither
  of the two sets (zero not being below zero).
\<close>

theorem CalculateSummary_buckets:
  assumes "YearlyData (CalculateSummary ops txns) y = Some monthly"
      and "monthly m = Some s"
  shows "TransactionCount s = int (length (bucket y m txns)) \<and>
         AverageDebit s =
           arithmetic_mean ops (filter (is_debit ops) (map Amount (bucket y m txns))) \<and>
         AverageCredit s =
           arithmetic_mean ops (filter (is_credit ops) (map Amount (bucket y m txns))) \<and>
         (\<not> flt ops (fzero ops) (fzero ops) \<longrightarrow>
            \<not> is_debit ops (fzero ops) \<and> \<not> is_credit ops (fzero ops))"
proof -
  from assms(1) have ne: "length txns \<noteq> 0"
    by (auto simp: CalculateSummary_def split: if_splits)
  with assms(1) have
    "computeMonthlyDataFromYearlyGroups ops (groupTransactionsByYearAndMonth txns) y = Some monthly"
    by (simp add: CalculateSummary_def calculateYearlyData_def)
  then obtain mg where g: "groupTransactionsByYearAndMonth txns y = Some mg"
    and mo: "monthly = (\<lambda>m. case mg m of None \<Rightarrow> None | Some l \<Rightarrow> Some (monthlySummary ops l))"
    by (auto simp: computeMonthlyDataFromYearlyGroups_def split: option.splits)
  from assms(2) mo obtain l where l: "mg m = Some l" and s: "s = monthlySummary ops l"
    by (auto split: option.splits)
  from groups_entry [OF g l] have lb: "l = bucket y m txns" .
  show ?thesis
    unfolding s lb
    by (simp add: monthlySummary_def separateDebitsAndCredits_def separate_loop_filter
        calculateAverage_mean is_debit_def is_credit_def)
qed

theorem CalculateSummary_buckets_witness:
  "\<exists>monthly.
     YearlyData (CalculateSummary rat_ops example_transactions) 2024 = Some monthly \<and>
     monthly 1 = Some \<lparr>TransactionCount = 4, AverageDebit = - 100, AverageCredit = 500\<rparr> \<and>
     int (length (bucket 2024 1 example_transactions)) = 4 \<and>
     arithmetic_mean rat_ops
       (filter (is_debit rat_ops) (map Amount (bucket 2024 1 example_transactions))) = - 100 \<and>
     arithmetic_mean rat_ops
       (filter (is_credit rat_ops) (map Amount (bucket 2024 1 example_transactions))) = 500 \<and>
     \<not> is_debit rat_ops 0 \<and> \<not> is_credit rat_ops 0"
proof -
  let ?s = "\<lparr>TransactionCount = 4, AverageDebit = - 100, AverageCredit = 500 :: rat\<rparr>"
  obtain monthly where
    h1: "YearlyData (CalculateSummary rat_ops example_transactions) 2024 = Some monthly" and
    h2: "monthly 1 = Some ?s"
    by (simp add: CalculateSummary_def calculateYearlyData_def
        computeMonthlyDataFromYearlyGroups_def groupTransactionsByYearAndMonth_def
        example_transactions_def SummaryYear_def Let_def monthlySummary_def
        separateDebitsAndCredits_def calculateAverage_def rat_ops_def)
  have z: "\<not> flt rat_ops (fzero rat_ops) (fzero rat_ops)" by (simp add: rat_ops_def)
  from CalculateSummary_buckets [OF h1 h2] z h1 h2 show ?thesis
    by (simp add: rat_ops_def)
qed

text \<open>
  Claim C6. The total balance is the sum of the amounts from left to right in the order
  of the list, starting from zero; for the empty list the summary has the total zero and
  an empty map of years.
\<close>

theorem CalculateSummary_total_balance:
  "TotalBalance (CalculateSummary ops txns) = sequential_sum ops (map Amount txns) \<and>
   CalculateSummary ops [] = \<lparr>TotalBalance = fzero ops, YearlyData = Map.empty\<rparr>"
  by (simp add: CalculateSummary_def calculateTotalBalance_def total_loop_foldl
      sequential_sum_def)

theorem CalculateSummary_total_balance_witness:
  "TotalBalance (CalculateSummary rat_ops example_transactions) = 800 \<and>
   CalculateSummary rat_ops [] = \<lparr>TotalBalance = 0, YearlyData = Map.empty\<rparr>"
proof -
  have "sequential_sum rat_ops (map Amount example_transactions) = 800"
    by (simp add: sequential_sum_def example_transactions_def rat_ops_def)
  with CalculateSummary_total_balance [of rat_ops example_transactions] show ?thesis
    by (simp add: CalculateSummary_def rat_ops_def)
qed

text \<open>
  The summarizer's test with a zero amount: two transactions of one month with the
  amounts 0 and 100 give the count 2, the average debit 0 and the average credit 100.
\<close>

lemma zero_amount_is_counted:
  "\<exists>monthly.
     YearlyData (CalculateSummary rat_ops example_zero_amounts) 2024 = Some monthly \<and>
     monthly 1 = Some \<lparr>TransactionCount = 2, AverageDebit = 0, AverageCredit = 100\<rparr>"
  by (simp add: CalculateSummary_def calculateYearlyData_def
      computeMonthlyDataFromYearlyGroups_def groupTransactionsByYearAndMonth_def
      example_zero_amounts_def SummaryYear_def Let_def monthlySummary_def
      separateDebitsAndCredits_def calculateAverage_def rat_ops_def)

section \<open>Properties of the repository\<close>

lemma call_client_calls:
  "call_client env k st input = (result, st1) \<Longrightarrow>
   calls st1 = calls st @ [\<lparr>kind = k, request = input, response = result\<rparr>] \<and>
   (result, world st1) = BatchWriteItem env (world st) input"
  by (auto simp: call_client_def split: prod.splits)

lemma retry_loop_trace:
  "retry_loop env st u k = (res, st') \<Longrightarrow>
   \<exists>cs. calls st' = calls st @ cs \<and> retries_from (Suc k) u cs \<and>
     (case res of
        Inl e \<Rightarrow> cs \<noteq> [] \<and> response (last cs) = None \<and> e = RetryFailed (k + length cs)
      | Inr u' \<Rightarrow>
          (if cs = [] then u' = u else response (last cs) = Some u') \<and>
          (u' \<noteq> Map.empty \<longrightarrow> maxRetries \<le> k + length cs))"
proof (induction env st u k arbitrary: res st' rule: retry_loop.induct)
  case (1 env st u k)
  show ?case
  proof (cases "u \<noteq> Map.empty \<and> k < maxRetries")
    case False
    with "1.prems" have "res = Inr u" "st' = st"
      by (auto simp: retry_loop.simps [of env st u k])
    with False show ?thesis by (intro exI [of _ "[]"]) auto
  next
    case True
    obtain result st1 where cc: "call_client env (RetryWrite (k + 1)) st u = (result, st1)"
      by (cases "call_client env (RetryWrite (k + 1)) st u") auto
    let ?c = "\<lparr>kind = RetryWrite (k + 1), request = u, response = result\<rparr>"
    from call_client_calls [OF cc] have cs1: "calls st1 = calls st @ [?c]" by simp
    show ?thesis
    proof (cases result)
      case None
      with "1.prems" True cc have "res = Inl (RetryFailed (k + 1))" "st' = st1"
        by (auto simp: retry_loop.simps [of env st u k])
      with cs1 None True show ?thesis
        by (intro exI [of _ "[?c]"]) simp
    next
      case (Some u1)
      with "1.prems" True cc have rl: "retry_loop env st1 u1 (k + 1) = (res, st')"
        by (auto simp: retry_loop.simps [of env st u k])
      from "1.IH" [OF True cc [symmetric] _ rl] Some
      obtain cs where a: "calls st' = calls st1 @ cs"
        and b: "retries_from (Suc (k + 1)) u1 cs"
        and c: "case res of
            Inl e \<Rightarrow> cs \<noteq> [] \<and> response (last cs) = None \<and> e = RetryFailed (k + 1 + length cs)
          | Inr u' \<Rightarrow>
              (if cs = [] then u' = u1 else response (last cs) = Some u') \<and>
              (u' \<noteq> Map.empty \<longrightarrow> maxRetries \<le> k + 1 + length cs)"
        by auto
      have r: "retries_from (Suc k) u (?c # cs)"
        using True b Some by (cases cs) auto
      from a cs1 have a': "calls st' = calls st @ (?c # cs)" by simp
      from c Some have c': "case res of
            Inl e \<Rightarrow> ?c # cs \<noteq> [] \<and> response (last (?c # cs)) = None \<and>
               e = RetryFailed (k + length (?c # cs))
          | Inr u' \<Rightarrow>
              (if ?c # cs = [] then u' = u else response (last (?c # cs)) = Some u') \<and>
              (u' \<noteq> Map.empty \<longrightarrow> maxRetries \<le> k + length (?c # cs))"
        by (auto split: sum.splits if_splits)
      from a' r c' show ?thesis by blast
    qed
  qed
qed

lemma build_requests_result:
  "build_requests env w acc txns = (res, w') \<Longrightarrow>
   (case res of
      Inl e \<Rightarrow> \<exists>n. e = MarshalFailed n
    | Inr rs \<Rightarrow> length rs = length acc + length txns)"
proof (induction txns arbitrary: w acc)
  case Nil
  then show ?case by auto
next
  case (Cons txn txns)
  then show ?case
    by (auto split: prod.splits option.splits sum.splits)
qed

lemma retries_from_length:
  "retries_from k u cs \<Longrightarrow> cs \<noteq> [] \<Longrightarrow> k + length cs \<le> Suc maxRetries"
proof (induction cs arbitrary: k u)
  case Nil
  then show ?case by simp
next
  case (Cons c cs)
  show ?case
  proof (cases cs)
    case Nil
    with Cons.prems show ?thesis by simp
  next
    case (Cons d ds)
    with Cons.prems obtain u1 where "retries_from (Suc k) u1 cs"
      by (auto split: option.splits)
    from Cons.IH [OF this] Cons show ?thesis by simp
  qed
qed

lemma retries_from_chain:
  "retries_from k u cs \<Longrightarrow> j < length cs \<Longrightarrow>
   kind (cs ! j) = RetryWrite (k + j) \<and>
   (if j = 0 then request (cs ! j) = u \<and> u \<noteq> Map.empty
    else \<exists>u1. response (cs ! (j - 1)) = Some u1 \<and> u1 \<noteq> Map.empty \<and> request (cs ! j) = u1)"
proof (induction cs arbitrary: k u j)
  case Nil
  then show ?case by simp
next
  case (Cons c cs)
  show ?case
  proof (cases j)
    case 0
    with Cons.prems show ?thesis by simp
  next
    case (Suc j')
    with Cons.prems have l: "j' < length cs" by simp
    then obtain d ds where cs: "cs = d # ds" by (cases cs) auto
    with Cons.prems obtain u1 where r: "response c = Some u1" and rf: "retries_from (Suc k) u1 cs"
      by (auto split: option.splits)
    note ih = Cons.IH [OF rf l]
    note k = ih [THEN conjunct1] and c = ih [THEN conjunct2]
    show ?thesis
    proof (cases j')
      case 0
      with Suc k c r show ?thesis by simp
    next
      case (Suc j'')
      with \<open>j = Suc j'\<close> k c show ?thesis by simp
    qed
  qed
qed

lemma saveBatch_trace:
  assumes "saveBatch env tableName st batch = (r, st')"
  shows "\<exists>cs. calls st' = calls st @ cs \<and>
           (if cs = [] then \<exists>n. r = Some (MarshalFailed n)
            else batch_calls tableName batch cs \<and> r = batch_outcome tableName cs)"
proof -
  obtain res w1 where br: "build_requests env (world st) [] batch = (res, w1)"
    by (cases "build_requests env (world st) [] batch") auto
  show ?thesis
  proof (cases res)
    case (Inl e)
    with assms br have "r = Some e" "st' = st\<lparr>world := w1\<rparr>" by (auto simp: saveBatch_def)
    moreover from build_requests_result [OF br] Inl obtain n where "e = MarshalFailed n" by auto
    ultimately show ?thesis by (intro exI [of _ "[]"]) simp
  next
    case (Inr rs)
    from build_requests_result [OF br] Inr have len: "length rs = length batch" by simp
    then have ex: "\<exists>writeRequests. [tableName \<mapsto> rs] = [tableName \<mapsto> writeRequests] \<and>
        length writeRequests = length batch" by blast
    obtain result st1 where
      cc: "call_client env (InitialWrite batch) (st\<lparr>world := w1\<rparr>) [tableName \<mapsto> rs] = (result, st1)"
      by (cases "call_client env (InitialWrite batch) (st\<lparr>world := w1\<rparr>) [tableName \<mapsto> rs]") auto
    let ?c = "\<lparr>kind = InitialWrite batch, request = [tableName \<mapsto> rs], response = result\<rparr>"
    from call_client_calls [OF cc] have cs1: "calls st1 = calls st @ [?c]" by simp
    show ?thesis
    proof (cases result)
      case None
      with assms br Inr cc have "r = Some BatchWriteFailed" "st' = st1"
        by (auto simp: saveBatch_def)
      with cs1 None ex show ?thesis
        by (intro exI [of _ "[?c]"]) (simp add: batch_calls_def batch_outcome_def)
    next
      case (Some u)
      show ?thesis
      proof (cases "u = Map.empty")
        case True
        with assms br Inr cc Some have "r = None" "st' = st1"
          by (auto simp: saveBatch_def)
        with cs1 Some True ex show ?thesis
          by (intro exI [of _ "[?c]"]) (simp add: batch_calls_def batch_outcome_def)
      next
        case False
        with assms br Inr cc Some
        have h: "handleUnprocessedItems env tableName st1 u = (r, st')"
          by (auto simp: saveBatch_def)
        obtain res2 st2 where rl: "retry_loop env st1 u 0 = (res2, st2)"
          by (cases "retry_loop env st1 u 0") auto
        from retry_loop_trace [OF rl] obtain cs where
          a: "calls st2 = calls st1 @ cs" and b: "retries_from (Suc 0) u cs" and
          c: "case res2 of
                Inl e \<Rightarrow> cs \<noteq> [] \<and> response (last cs) = None \<and> e = RetryFailed (0 + length cs)
              | Inr u' \<Rightarrow>
                  (if cs = [] then u' = u else response (last cs) = Some u') \<and>
                  (u' \<noteq> Map.empty \<longrightarrow> maxRetries \<le> 0 + length cs)"
          by blast
        have ne: "cs \<noteq> []" using c False by (auto simp: maxRetries_def split: sum.splits if_splits)
        from h rl have st: "st' = st2" by (auto simp: handleUnprocessedItems_def split: sum.splits if_splits)
        have bc: "batch_calls tableName batch (?c # cs)"
          using b ne Some ex by (cases cs) (simp_all add: batch_calls_def)
        have out: "r = batch_outcome tableName (?c # cs)"
          using h rl c ne
          by (auto simp: handleUnprocessedItems_def batch_outcome_def split: sum.splits if_splits)
        from a cs1 st have "calls st' = calls st @ (?c # cs)" by simp
        with bc out show ?thesis by (intro exI [of _ "?c # cs"]) simp
      qed
    qed
  qed
qed

lemma store_run_append:
  "store_run env w (xs @ ys) w' \<longleftrightarrow> (\<exists>w1. store_run env w xs w1 \<and> store_run env w1 ys w')"
proof (induction xs arbitrary: w)
  case Nil
  show ?case by simp
next
  case (Cons c xs)
  show ?case by (simp add: Cons.IH split: prod.splits)
qed

lemma call_client_store:
  assumes "call_client env k st input = (result, st1)"
  shows "store_run env (world st) [\<lparr>kind = k, request = input, response = result\<rparr>] (world st1)"
  using assms by (auto simp: call_client_def split: prod.splits)

lemma retry_loop_store:
  "retry_loop env st u k = (res, st') \<Longrightarrow>
   \<exists>cs. calls st' = calls st @ cs \<and> store_run env (world st) cs (world st')"
proof (induction env st u k arbitrary: res st' rule: retry_loop.induct)
  case (1 env st u k)
  show ?case
  proof (cases "u \<noteq> Map.empty \<and> k < maxRetries")
    case False
    with "1.prems" have "st' = st"
      by (auto simp: retry_loop.simps [of env st u k])
    then show ?thesis by (intro exI [of _ "[]"]) simp
  next
    case True
    obtain result st1 where cc: "call_client env (RetryWrite (k + 1)) st u = (result, st1)"
      by (cases "call_client env (RetryWrite (k + 1)) st u") auto
    let ?c = "\<lparr>kind = RetryWrite (k + 1), request = u, response = result\<rparr>"
    from call_client_calls [OF cc] have cs1: "calls st1 = calls st @ [?c]" by simp
    note sr1 = call_client_store [OF cc]
    show ?thesis
    proof (cases result)
      case None
      with "1.prems" True cc have "st' = st1"
        by (auto simp: retry_loop.simps [of env st u k])
      with cs1 sr1 show ?thesis by (intro exI [of _ "[?c]"]) simp
    next
      case (Some u1)
      with "1.prems" True cc have rl: "retry_loop env st1 u1 (k + 1) = (res, st')"
        by (auto simp: retry_loop.simps [of env st u k])
      from "1.IH" [OF True cc [symmetric] _ rl] Some
      obtain cs where a: "calls st' = calls st1 @ cs"
        and b: "store_run env (world st1) cs (world st')"
        by auto
      from a cs1 have a': "calls st' = calls st @ ([?c] @ cs)" by simp
      from sr1 b have "store_run env (world st) ([?c] @ cs) (world st')"
        unfolding store_run_append by blast
      with a' show ?thesis by blast
    qed
  qed
qed

lemma retry_loop_progress:
  assumes "retry_loop env st u k = (res, st')" and "calls st' = calls st @ cs"
  shows "(u \<noteq> Map.empty \<longrightarrow> k < maxRetries \<longrightarrow> cs \<noteq> []) \<and>
         (\<forall>j u1. j < length cs \<longrightarrow> response (cs ! j) = Some u1 \<longrightarrow> u1 \<noteq> Map.empty \<longrightarrow>
             k + Suc j < maxRetries \<longrightarrow> Suc j < length cs)"
proof -
  from retry_loop_trace [OF assms(1)] obtain cs' where
    a: "calls st' = calls st @ cs'" and
    c: "case res of
          Inl e \<Rightarrow> cs' \<noteq> [] \<and> response (last cs') = None \<and> e = RetryFailed (k + length cs')
        | Inr u' \<Rightarrow>
            (if cs' = [] then u' = u else response (last cs') = Some u') \<and>
            (u' \<noteq> Map.empty \<longrightarrow> maxRetries \<le> k + length cs')"
    by blast
  from a assms(2) have e: "cs' = cs" by simp
  note c = c [unfolded e]
  have first: "u \<noteq> Map.empty \<longrightarrow> k < maxRetries \<longrightarrow> cs \<noteq> []"
    using c by (cases res) (auto split: if_splits)
  have rest: "\<forall>j u1. j < length cs \<longrightarrow> response (cs ! j) = Some u1 \<longrightarrow> u1 \<noteq> Map.empty \<longrightarrow>
             k + Suc j < maxRetries \<longrightarrow> Suc j < length cs"
  proof (intro allI impI)
    fix j u1
    assume j: "j < length cs" and r: "response (cs ! j) = Some u1" and ne: "u1 \<noteq> Map.empty"
      and b: "k + Suc j < maxRetries"
    show "Suc j < length cs"
    proof (rule ccontr)
      assume "\<not> Suc j < length cs"
      with j have l: "Suc j = length cs" by simp
      then have la: "last cs = cs ! j" using j by (cases cs rule: rev_cases) (auto simp: nth_append)
      from j have cne: "cs \<noteq> []" by auto
      show False
      proof (cases res)
        case (Inl e)
        with c la r show False by simp
      next
        case (Inr u')
        with c cne la r have "u' = u1" and "u' \<noteq> Map.empty \<longrightarrow> maxRetries \<le> k + length cs"
          by simp_all
        with ne l b show False by simp
      qed
    qed
  qed
  from first rest show ?thesis ..
qed

lemma saveBatch_store_progress:
  assumes "saveBatch env tableName st batch = (r, st')" and "calls st' = calls st @ cs"
  shows "store_run env (snd (build_requests env (world st) [] batch)) cs (world st') \<and>
         (cs \<noteq> [] \<longrightarrow>
            (\<exists>rs. fst (build_requests env (world st) [] batch) = Inr rs \<and>
                  request (cs ! 0) = [tableName \<mapsto> rs])) \<and>
         (\<forall>j u. j < length cs \<longrightarrow> response (cs ! j) = Some u \<longrightarrow> u \<noteq> Map.empty \<longrightarrow>
             j < maxRetries \<longrightarrow> Suc j < length cs)"
proof -
  obtain res w1 where br: "build_requests env (world st) [] batch = (res, w1)"
    by (cases "build_requests env (world st) [] batch") auto
  show ?thesis
  proof (cases res)
    case (Inl e)
    with assms(1) br have "st' = st\<lparr>world := w1\<rparr>" by (auto simp: saveBatch_def)
    with assms(2) have "cs = []" "world st' = w1" by simp_all
    with br show ?thesis by simp
  next
    case (Inr rs)
    obtain result st1 where
      cc: "call_client env (InitialWrite batch) (st\<lparr>world := w1\<rparr>) [tableName \<mapsto> rs] = (result, st1)"
      by (cases "call_client env (InitialWrite batch) (st\<lparr>world := w1\<rparr>) [tableName \<mapsto> rs]") auto
    define c0 :: "('b, 'c) store_call" where
      "c0 = \<lparr>kind = InitialWrite batch, request = [tableName \<mapsto> rs], response = result\<rparr>"
    from call_client_calls [OF cc] have cs1: "calls st1 = calls st @ [c0]" by (simp add: c0_def)
    from call_client_store [OF cc] have sr1: "store_run env w1 [c0] (world st1)"
      by (simp add: c0_def)
    have rq: "request c0 = [tableName \<mapsto> rs]" and rp: "response c0 = result"
      by (simp_all add: c0_def)
    have single: "st' = st1 \<Longrightarrow> (\<forall>u. result = Some u \<longrightarrow> u = Map.empty) \<Longrightarrow> ?thesis"
    proof -
      assume s: "st' = st1" and e: "\<forall>u. result = Some u \<longrightarrow> u = Map.empty"
      from s cs1 assms(2) have cs: "cs = [c0]" by simp
      from sr1 s br Inr rq rp e show ?thesis unfolding cs by auto
    qed
    show ?thesis
    proof (cases result)
      case None
      with assms(1) br Inr cc have "st' = st1" by (auto simp: saveBatch_def)
      with None show ?thesis by (intro single) simp_all
    next
      case (Some u)
      show ?thesis
      proof (cases "u = Map.empty")
        case True
        with assms(1) br Inr cc Some have "st' = st1" by (auto simp: saveBatch_def)
        with Some True show ?thesis by (intro single) simp_all
      next
        case False
        with assms(1) br Inr cc Some
        have h: "handleUnprocessedItems env tableName st1 u = (r, st')"
          by (auto simp: saveBatch_def)
        obtain res2 st2 where rl: "retry_loop env st1 u 0 = (res2, st2)"
          by (cases "retry_loop env st1 u 0") auto
        from h rl have st: "st' = st2"
          by (auto simp: handleUnprocessedItems_def split: sum.splits if_splits)
        from retry_loop_store [OF rl] obtain cs2 where
          a: "calls st2 = calls st1 @ cs2" and b: "store_run env (world st1) cs2 (world st2)"
          by blast
        note pr = retry_loop_progress [OF rl a]
        from pr False have ne: "cs2 \<noteq> []" by (simp add: maxRetries_def)
        from a cs1 st assms(2) have cs: "cs = c0 # cs2" by simp
        from sr1 b st have s1: "store_run env w1 ([c0] @ cs2) (world st')"
          unfolding store_run_append by blast
        have s2: "\<forall>j u. j < length (c0 # cs2) \<longrightarrow> response ((c0 # cs2) ! j) = Some u \<longrightarrow>
            u \<noteq> Map.empty \<longrightarrow> j < maxRetries \<longrightarrow> Suc j < length (c0 # cs2)"
        proof (intro allI impI)
          fix j v
          assume j: "j < length (c0 # cs2)" and r: "response ((c0 # cs2) ! j) = Some v"
            and v: "v \<noteq> Map.empty" and m: "j < maxRetries"
          show "Suc j < length (c0 # cs2)"
          proof (cases j)
            case 0
            with ne show ?thesis by (cases cs2) simp_all
          next
            case (Suc j')
            with j r m have "j' < length cs2" "response (cs2 ! j') = Some v" "0 + Suc j' < maxRetries"
              by simp_all
            with pr v have "Suc j' < length cs2" by blast
            with Suc show ?thesis by simp
          qed
        qed
        from s1 s2 br Inr rq show ?thesis unfolding cs by simp
      qed
    qed
  qed
qed

lemma batches_Nil: "batches n [] = []"
  by (simp add: batches.simps)

lemma batches_Cons:
  "0 < n \<Longrightarrow> xs \<noteq> [] \<Longrightarrow> batches n xs = take n xs # batches n (drop n xs)"
  by (simp add: batches.simps [of n xs])

lemma batches_concat: "0 < n \<Longrightarrow> concat (batches n xs) = xs"
proof (induction n xs rule: batches.induct)
  case (1 n xs)
  show ?case
  proof (cases "xs = []")
    case True
    then show ?thesis by (simp add: batches_Nil)
  next
    case False
    with 1 show ?thesis by (simp add: batches_Cons [of n xs])
  qed
qed

lemma batches_sizes: "b \<in> set (batches n xs) \<Longrightarrow> b \<noteq> [] \<and> length b \<le> n"
proof (induction n xs rule: batches.induct)
  case (1 n xs)
  show ?case
  proof (cases "n = 0 \<or> xs = []")
    case True
    with "1.prems" show ?thesis by (simp add: batches.simps [of n xs])
  next
    case False
    with "1.prems" have "b = take n xs \<or> b \<in> set (batches n (drop n xs))"
      by (simp add: batches.simps [of n xs])
    then show ?thesis
    proof
      assume "b = take n xs"
      with False show ?thesis by simp
    next
      assume "b \<in> set (batches n (drop n xs))"
      with "1.IH" False show ?thesis by simp
    qed
  qed
qed

lemma ceil_div_step:
  assumes "0 < n" and "0 < (m::nat)"
  shows "(m + n - 1) div n = Suc ((m - n + n - 1) div n)"
proof -
  from assms(2) obtain k where m: "m = Suc k" by (cases m) auto
  have l: "(m + n - 1) div n = Suc (k div n)"
  proof -
    have "m + n - 1 = k + n" unfolding m by simp
    then have "(m + n - 1) div n = (k + n) div n" by (rule arg_cong)
    also have "\<dots> = Suc (k div n)" using assms(1) by (simp add: div_add_self2)
    finally show ?thesis .
  qed
  show ?thesis
  proof (cases "n \<le> m")
    case True
    then have "m - n + n - 1 = k" unfolding m by arith
    with l show ?thesis by (simp only:)
  next
    case False
    then have a: "m - n + n - 1 = n - 1" and b: "k < n" unfolding m by arith+
    have "(n - 1) div n = 0" using assms(1) by (intro div_less) arith
    moreover have "k div n = 0" using b by (rule div_less)
    ultimately show ?thesis using l a by (simp only:)
  qed
qed

lemma batches_length: "0 < n \<Longrightarrow> length (batches n xs) = (length xs + n - 1) div n"
proof (induction n xs rule: batches.induct)
  case (1 n xs)
  show ?case
  proof (cases "xs = []")
    case True
    have "(n - 1) div n = 0" using "1.prems" by (intro div_less) arith
    with True show ?thesis by (simp add: batches_Nil)
  next
    case False
    with "1.prems" have c: "batches n xs = take n xs # batches n (drop n xs)"
      by (intro batches_Cons)
    from False "1.prems" have "length (batches n (drop n xs)) = (length (drop n xs) + n - 1) div n"
      by (intro "1.IH") simp_all
    then have "length (batches n (drop n xs)) = (length xs - n + n - 1) div n"
      by (simp only: length_drop)
    with c have "length (batches n xs) = Suc ((length xs - n + n - 1) div n)"
      by (simp only: list.size length_Cons)
    also have "\<dots> = (length xs + n - 1) div n"
      using False "1.prems" by (intro ceil_div_step [symmetric]) simp_all
    finally show ?thesis .
  qed
qed

lemma take_slice:
  "i < length xs \<Longrightarrow>
   take ((if i + n > length xs then length xs else i + n) - i) (drop i xs) = take n (drop i xs)"
  by simp

lemma save_loop_trace:
  "save_loop env tableName st txns i = (r, st') \<Longrightarrow>
   \<exists>groups. calls st' = calls st @ concat groups \<and>
     save_run tableName i (batches batchSize (drop i txns)) groups r"
proof (induction env tableName st txns i arbitrary: r st' rule: save_loop.induct)
  case (1 env tableName st txns i)
  show ?case
  proof (cases "i < length txns")
    case False
    with "1.prems" have "r = None" "st' = st"
      by (auto simp: save_loop.simps [of env tableName st txns i])
    with False show ?thesis by (intro exI [of _ "[]"]) (simp add: batches_Nil)
  next
    case True
    define batch where
      "batch = take ((if i + batchSize > length txns then length txns else i + batchSize) - i)
                 (drop i txns)"
    define rest where "rest = batches batchSize (drop (i + batchSize) txns)"
    have batch: "batch = take batchSize (drop i txns)"
      unfolding batch_def using True by (rule take_slice)
    have bs: "batches batchSize (drop i txns) = batch # rest"
      using True batch by (simp add: batches_Cons batchSize_def add.commute rest_def)
    obtain rb st1 where sb: "saveBatch env tableName st batch = (rb, st1)"
      by (cases "saveBatch env tableName st batch") auto
    have unf: "save_loop env tableName st txns i =
        (case saveBatch env tableName st batch of
           (Some err, st1) \<Rightarrow> (Some (BatchFailedAt i err), st1)
         | (None, st1) \<Rightarrow> save_loop env tableName st1 txns (i + batchSize))"
      using True by (simp add: save_loop.simps [of env tableName st txns i] Let_def batch_def)
    from saveBatch_trace [OF sb] obtain cs where
      cs: "calls st1 = calls st @ cs" and
      tr: "if cs = [] then \<exists>n. rb = Some (MarshalFailed n)
           else batch_calls tableName batch cs \<and> rb = batch_outcome tableName cs"
      by blast
    show ?thesis
    proof (cases rb)
      case (Some e)
      with "1.prems" unf sb have r: "r = Some (BatchFailedAt i e)" and st: "st' = st1"
        by simp_all
      show ?thesis
      proof (cases "cs = []")
        case True
        with tr Some obtain n where "e = MarshalFailed n" by auto
        with r have "save_run tableName i (batch # rest) [] r" by simp
        with True cs st bs show ?thesis by (intro exI [of _ "[]"]) simp
      next
        case False
        with tr Some have "batch_calls tableName batch cs" "batch_outcome tableName cs = Some e"
          by simp_all
        with r have "save_run tableName i (batch # rest) [cs] r" by simp
        with cs st bs show ?thesis by (intro exI [of _ "[cs]"]) simp
      qed
    next
      case None
      with "1.prems" unf sb
      have rl: "save_loop env tableName st1 txns (i + batchSize) = (r, st')"
        by simp
      have ne: "cs \<noteq> []" using None tr by (cases "cs = []") auto
      with tr None have bc: "batch_calls tableName batch cs"
        and out: "batch_outcome tableName cs = None"
        by simp_all
      have "\<exists>groups. calls st' = calls st1 @ concat groups \<and>
          save_run tableName (i + batchSize) (batches batchSize (drop (i + batchSize) txns)) groups r"
        using sb None rl
        by (intro "1.IH" [OF True refl, of batch rb st1]) (simp_all add: batch_def)
      then obtain groups where g: "calls st' = calls st1 @ concat groups" and
        sr: "save_run tableName (i + batchSize) rest groups r"
        unfolding rest_def by blast
      from g cs have "calls st' = calls st @ concat (cs # groups)" by simp
      moreover from bc out sr
      have "save_run tableName i (batch # rest) (cs # groups) r" by simp
      ultimately show ?thesis unfolding bs by blast
    qed
  qed
qed

lemma initial_batches_append:
  "initial_batches (xs @ ys) = initial_batches xs @ initial_batches ys"
  by (induction xs) (auto split: call_kind.splits)

lemma retries_from_no_initial: "retries_from k u cs \<Longrightarrow> initial_batches cs = []"
proof (induction cs arbitrary: k u)
  case Nil
  show ?case by simp
next
  case (Cons c cs)
  from Cons.prems have kc: "kind c = RetryWrite k" by simp
  show ?case
  proof (cases cs)
    case Nil
    with kc show ?thesis by simp
  next
    case (Cons d ds)
    with Cons.prems obtain u1 where "retries_from (Suc k) u1 cs"
      by (auto split: option.splits)
    from Cons.IH [OF this] kc show ?thesis by simp
  qed
qed

lemma batch_calls_head:
  assumes "batch_calls tableName b g"
  shows "g \<noteq> [] \<and> kind (g ! 0) = InitialWrite b \<and> initial_batches g = [b] \<and>
         length g \<le> Suc maxRetries"
proof -
  from assms obtain c rest where g: "g = c # rest" and k: "kind c = InitialWrite b"
    by (cases g) (auto simp: batch_calls_def)
  show ?thesis
  proof (cases rest)
    case Nil
    with g k show ?thesis by simp
  next
    case (Cons d ds)
    with assms g obtain u where "retries_from 1 u rest"
      by (auto simp: batch_calls_def split: option.splits)
    from retries_from_no_initial [OF this] retries_from_length [OF this] Cons g k
    show ?thesis by simp
  qed
qed

lemma batch_calls_chain:
  assumes "batch_calls tableName b g" and "Suc j < length g"
  shows "\<exists>u. response (g ! j) = Some u \<and> u \<noteq> Map.empty \<and> request (g ! Suc j) = u \<and>
             kind (g ! Suc j) = RetryWrite (Suc j)"
proof -
  from assms obtain c d ds where g: "g = c # d # ds"
    by (cases g; cases "tl g") auto
  with assms(1) obtain u where r: "response c = Some u" and rf: "retries_from 1 u (d # ds)"
    by (auto simp: batch_calls_def split: option.splits)
  from assms(2) g have j: "j < length (d # ds)" by simp
  note ch = retries_from_chain [OF rf j]
  show ?thesis
  proof (cases j)
    case 0
    with ch r g show ?thesis by simp
  next
    case (Suc j')
    with ch g show ?thesis by simp
  qed
qed

lemma batch_calls_empty_response_last:
  assumes "batch_calls tableName b g" and "j < length g" and "response (g ! j) = Some Map.empty"
  shows "Suc j = length g \<and> batch_outcome tableName g = None"
proof -
  have "\<not> Suc j < length g"
  proof
    assume "Suc j < length g"
    from batch_calls_chain [OF assms(1) this] assms(3) show False by simp
  qed
  with assms(2) have l: "Suc j = length g" by simp
  then have "last g = g ! j" using assms(2) by (cases g rule: rev_cases) (auto simp: nth_append)
  with assms(3) l show ?thesis by (simp add: batch_outcome_def)
qed

lemma save_run_groups:
  "save_run tableName i bs groups r \<Longrightarrow>
   length groups \<le> length bs \<and>
   list_all2 (batch_calls tableName) (take (length groups) bs) groups \<and>
   (r = None \<longrightarrow> length groups = length bs)"
proof (induction tableName i bs groups r rule: save_run.induct)
  case (1 tableName i r)
  then show ?case by simp
next
  case (2 tableName i g gs r)
  then show ?case by simp
next
  case (3 tableName i b bs r)
  then show ?case by (auto split: option.splits save_error.splits)
next
  case (4 tableName i b bs g gs r)
  show ?case
  proof (cases "batch_outcome tableName g")
    case None
    with "4.prems" have bc: "batch_calls tableName b g"
      and sr: "save_run tableName (i + batchSize) bs gs r" by simp_all
    from "4.IH" [OF None sr] bc show ?thesis by simp
  next
    case (Some e)
    with "4.prems" show ?thesis by simp
  qed
qed

lemma initial_batches_groups:
  "list_all2 (batch_calls tableName) bs groups \<Longrightarrow> initial_batches (concat groups) = bs"
proof (induction rule: list_all2_induct)
  case Nil
  show ?case by simp
next
  case (Cons b bs g groups)
  from batch_calls_head [OF Cons.hyps(1)] Cons.IH show ?case
    by (simp add: initial_batches_append)
qed

lemma batch_calls_exhausted:
  assumes "batch_calls tableName b g" and "j < length g"
    and "kind (g ! j) = RetryWrite maxRetries" and "response (g ! j) = Some u"
    and "u \<noteq> Map.empty"
  shows "Suc j = length g \<and>
         batch_outcome tableName g =
           Some (RetriesExhausted maxRetries (length (items_of u tableName)))"
proof -
  note h = batch_calls_head [OF assms(1)]
  have "j \<noteq> 0"
  proof
    assume "j = 0"
    with h assms(3) show False by simp
  qed
  then obtain j' where j: "j = Suc j'" by (cases j) auto
  from batch_calls_chain [OF assms(1) assms(2) [unfolded j]] assms(3) j
  have "Suc j' = maxRetries" by auto
  with j h assms(2) have l: "Suc j = length g" by simp
  then have "last g = g ! j" using assms(2) by (cases g rule: rev_cases) (auto simp: nth_append)
  with assms(4,5) l show ?thesis by (simp add: batch_outcome_def)
qed

lemma save_run_exhausted:
  "save_run tableName i bs groups r \<Longrightarrow> j < length (concat groups) \<Longrightarrow>
   kind (concat groups ! j) = RetryWrite maxRetries \<Longrightarrow>
   response (concat groups ! j) = Some u \<Longrightarrow> u \<noteq> Map.empty \<Longrightarrow>
   Suc j = length (concat groups) \<and> groups \<noteq> [] \<and>
   r = Some (BatchFailedAt (i + batchSize * (length groups - 1))
              (RetriesExhausted maxRetries (length (items_of u tableName))))"
proof (induction tableName i bs groups r arbitrary: j rule: save_run.induct)
  case (1 tableName i r)
  then show ?case by simp
next
  case (2 tableName i g gs r)
  then show ?case by simp
next
  case (3 tableName i b bs r)
  then show ?case by simp
next
  case (4 tableName i b bs g gs r)
  from "4.prems"(1) have bc: "batch_calls tableName b g" by simp
  show ?case
  proof (cases "j < length g")
    case True
    with "4.prems" have k: "kind (g ! j) = RetryWrite maxRetries"
      and rs: "response (g ! j) = Some u" by (simp_all add: nth_append)
    from batch_calls_exhausted [OF bc True k rs "4.prems"(5)]
    have l: "Suc j = length g" and
      out: "batch_outcome tableName g =
        Some (RetriesExhausted maxRetries (length (items_of u tableName)))"
      by simp_all
    from "4.prems"(1) out have "gs = []" and
      "r = Some (BatchFailedAt i (RetriesExhausted maxRetries (length (items_of u tableName))))"
      by simp_all
    with l show ?thesis by simp
  next
    case False
    define j' where "j' = j - length g"
    from False have j: "j = length g + j'" by (simp add: j'_def)
    from "4.prems"(2) j have jl: "j' < length (concat gs)" by simp
    then have gne: "gs \<noteq> []" by auto
    have out: "batch_outcome tableName g = None"
    proof (cases "batch_outcome tableName g")
      case None
      then show ?thesis .
    next
      case (Some e)
      with "4.prems"(1) gne show ?thesis by simp
    qed
    with "4.prems"(1) have sr: "save_run tableName (i + batchSize) bs gs r" by simp
    from "4.prems"(3,4) j have k: "kind (concat gs ! j') = RetryWrite maxRetries"
      and rs: "response (concat gs ! j') = Some u" by (simp_all add: nth_append)
    from "4.IH" [OF out sr jl k rs "4.prems"(5)]
    have a: "Suc j' = length (concat gs)" and
      b: "r = Some (BatchFailedAt (i + batchSize + batchSize * (length gs - 1))
              (RetriesExhausted maxRetries (length (items_of u tableName))))"
      by simp_all
    from gne have "batchSize + batchSize * (length gs - 1) = batchSize * length gs"
      by (cases gs) simp_all
    with b have "r = Some (BatchFailedAt (i + batchSize * (length (g # gs) - 1))
              (RetriesExhausted maxRetries (length (items_of u tableName))))"
      by (simp add: add.assoc)
    with a j show ?thesis by simp
  qed
qed

lemmas repo_eval =
  Save_def save_loop.simps saveBatch_def handleUnprocessedItems_def retry_loop.simps
  call_client_def batchSize_def maxRetries_def items_of_def example_env_def
  example_state_def example_table_def example_new_uuid_def example_txn_def
  accepting_write_def failing_write_def stuck_write_def flaky_write_def Let_def

lemma Save_as_loop:
  "Save env tableName st txns = save_loop env tableName st txns 0"
  by (simp add: Save_def save_loop.simps [of env tableName st txns 0])

lemma save_loop_slices:
  "save_loop env tableName st txns i =
     save_slices env tableName st i (batches batchSize (drop i txns))"
proof (induction env tableName st txns i rule: save_loop.induct)
  case (1 env tableName st txns i)
  show ?case
  proof (cases "i < length txns")
    case False
    then show ?thesis
      by (simp add: save_loop.simps [of env tableName st txns i] batches_Nil)
  next
    case True
    define batch where
      "batch = take ((if i + batchSize > length txns then length txns else i + batchSize) - i)
                 (drop i txns)"
    define rest where "rest = batches batchSize (drop (i + batchSize) txns)"
    have batch: "batch = take batchSize (drop i txns)"
      unfolding batch_def using True by (rule take_slice)
    have bs: "batches batchSize (drop i txns) = batch # rest"
      using True batch by (simp add: batches_Cons batchSize_def add.commute rest_def)
    obtain rb st1 where sb: "saveBatch env tableName st batch = (rb, st1)"
      by (cases "saveBatch env tableName st batch") auto
    have unf: "save_loop env tableName st txns i =
        (case saveBatch env tableName st batch of
           (Some err, st1) \<Rightarrow> (Some (BatchFailedAt i err), st1)
         | (None, st1) \<Rightarrow> save_loop env tableName st1 txns (i + batchSize))"
      using True by (simp add: save_loop.simps [of env tableName st txns i] Let_def batch_def)
    show ?thesis
    proof (cases rb)
      case (Some e)
      with unf sb bs show ?thesis by simp
    next
      case None
      have "save_loop env tableName st1 txns (i + batchSize) =
          save_slices env tableName st1 (i + batchSize) rest"
        unfolding rest_def using sb None
        by (intro "1.IH" [OF True refl, of batch rb st1]) (simp_all add: batch_def)
      with unf sb bs None show ?thesis by simp
    qed
  qed
qed

lemma Save_slices:
  "Save env tableName st txns = save_slices env tableName st 0 (batches batchSize txns)"
  using save_loop_slices [of env tableName st txns 0] by (simp add: Save_as_loop)

lemma save_run_failed_group:
  "save_run t i bs groups r \<Longrightarrow> k < length groups \<Longrightarrow>
   batch_outcome t (groups ! k) = Some e \<Longrightarrow>
   Suc k = length groups \<and> r = Some (BatchFailedAt (i + batchSize * k) e)"
proof (induction t i bs groups r arbitrary: k rule: save_run.induct)
  case (4 t i b bs g gs r)
  show ?case
  proof (cases "batch_outcome t g")
    case (Some e')
    with "4.prems"(1) have gs: "gs = []" and r: "r = Some (BatchFailedAt i e')" by simp_all
    from gs "4.prems"(2) have k: "k = 0" by simp
    with "4.prems"(3) Some have "e' = e" by simp
    with gs k r show ?thesis by simp
  next
    case None
    with "4.prems"(1) have sr: "save_run t (i + batchSize) bs gs r" by simp
    from None "4.prems"(3) have "k \<noteq> 0" by (cases k) auto
    then obtain k' where k: "k = Suc k'" by (cases k) auto
    with "4.prems" have a: "k' < length gs" and b: "batch_outcome t (gs ! k') = Some e"
      by simp_all
    have ar: "i + batchSize + batchSize * k' = i + batchSize * Suc k'" by simp
    note ih = "4.IH" [OF None sr a b]
    from ih [THEN conjunct1] k have l: "Suc k = length (g # gs)" by simp
    from ih [THEN conjunct2] have "r = Some (BatchFailedAt (i + batchSize * Suc k') e)"
      by (simp only: ar)
    with k have "r = Some (BatchFailedAt (i + batchSize * k) e)" by (simp only:)
    with l show ?thesis by (intro conjI)
  qed
qed simp_all

lemma save_run_success:
  "save_run t i bs groups None \<Longrightarrow>
   length groups = length bs \<and> (\<forall>g \<in> set groups. batch_outcome t g = None)"
proof (induction t i bs groups "None :: save_error option" rule: save_run.induct)
  case (4 t i b bs g gs)
  show ?case
  proof (cases "batch_outcome t g")
    case (Some e')
    with "4.prems" show ?thesis by simp
  next
    case None
    with "4.prems" have sr: "save_run t (i + batchSize) bs gs None" by simp
    from "4.hyps" [OF None sr] None show ?thesis by simp
  qed
qed simp_all

lemma save_run_all_succeeded:
  "save_run t i bs groups r \<Longrightarrow> \<forall>g \<in> set groups. batch_outcome t g = None \<Longrightarrow>
   (if length groups = length bs then r = None
    else length groups < length bs \<and>
         (\<exists>n. r = Some (BatchFailedAt (i + batchSize * length groups) (MarshalFailed n))))"
proof (induction t i bs groups r rule: save_run.induct)
  case (3 t i b bs r)
  then show ?case
    by (auto split: option.splits save_error.splits)
next
  case (4 t i b bs g gs r)
  from "4.prems"(2) have None: "batch_outcome t g = None"
    and rest: "\<forall>g \<in> set gs. batch_outcome t g = None" by simp_all
  from None "4.prems"(1) have sr: "save_run t (i + batchSize) bs gs r" by simp
  have ar: "i + batchSize + batchSize * length gs = i + batchSize * length (g # gs)" by simp
  from "4.IH" [OF None sr rest]
  have "if length gs = length bs then r = None
        else length gs < length bs \<and>
             (\<exists>n. r = Some (BatchFailedAt (i + batchSize * length (g # gs)) (MarshalFailed n)))"
    unfolding ar .
  then show ?case by (simp split: if_splits)
qed simp_all

text \<open>
  Claim C7. Save takes a list of \<open>N\<close> transactions in consecutive slices of at most 25
  and issues exactly \<open>ceil(N / 25)\<close> initial batch writes. Save returns at the first
  batch that fails: with 26 transactions and a store whose calls fail, the first batch
  write is the only one, where \<open>ceil(26 / 25)\<close> is 2.
\<close>

theorem Save_stops_at_failed_batch:
  "fst (Save (example_env failing_write) example_table example_state example_26) =
     Some (BatchFailedAt 0 BatchWriteFailed) \<and>
   length (initial_batches (calls (snd
     (Save (example_env failing_write) example_table example_state example_26)))) = 1 \<and>
   (length example_26 + 24) div 25 = 2"
  by (simp add: repo_eval example_26_def)

text \<open>
  Claim C7, as the code has it. The consecutive slices of at most 25 transactions give
  the list back in its order, and there are \<open>ceil(N / 25)\<close> of them. Save is the saving of
  these slices one after the other, stopping at the first that fails. The calls of a run
  of Save fall into groups, one per slice and in the order of the slices: the first
  write of the slice, followed by its retries. Every group but the last is of a slice
  that succeeded; a group whose calls end in failure is the last one, and Save returns
  that failure with the index at which the slice starts. Save succeeds exactly when
  every slice has its group and every group succeeded: exactly \<open>ceil(N / 25)\<close> initial
  batch writes are then issued. When the groups all succeeded but do not cover the
  slices, the next slice failed before its first write.
\<close>

theorem Save_batches:
  assumes "Save env tableName st txns = (r, st')"
  shows "concat (batches batchSize txns) = txns \<and>
         (\<forall>b \<in> set (batches batchSize txns). b \<noteq> [] \<and> length b \<le> 25) \<and>
         length (batches batchSize txns) = (length txns + 24) div 25 \<and>
         save_slices env tableName st 0 (batches batchSize txns) = (r, st') \<and>
         (\<exists>groups.
            calls st' = calls st @ concat groups \<and>
            length groups \<le> length (batches batchSize txns) \<and>
            list_all2 (batch_calls tableName)
              (take (length groups) (batches batchSize txns)) groups \<and>
            initial_batches (concat groups) = take (length groups) (batches batchSize txns) \<and>
            (r = None \<longrightarrow> length groups = length (batches batchSize txns)) \<and>
            (\<forall>k. Suc k < length groups \<longrightarrow> batch_outcome tableName (groups ! k) = None) \<and>
            (\<forall>k e. k < length groups \<longrightarrow> batch_outcome tableName (groups ! k) = Some e \<longrightarrow>
               Suc k = length groups \<and> r = Some (BatchFailedAt (batchSize * k) e)) \<and>
            (r = None \<longleftrightarrow>
               length groups = length (batches batchSize txns) \<and>
               (\<forall>g \<in> set groups. batch_outcome tableName g = None)) \<and>
            ((\<forall>g \<in> set groups. batch_outcome tableName g = None) \<longrightarrow>
               length groups < length (batches batchSize txns) \<longrightarrow>
               (\<exists>n. r = Some (BatchFailedAt (batchSize * length groups) (MarshalFailed n)))))"
proof -
  have p: "0 < batchSize" by (simp add: batchSize_def)
  have a: "concat (batches batchSize txns) = txns" using p by (rule batches_concat)
  have b: "\<forall>b \<in> set (batches batchSize txns). b \<noteq> [] \<and> length b \<le> 25"
    using batches_sizes [of _ batchSize txns] by (auto simp: batchSize_def)
  have c: "length (batches batchSize txns) = (length txns + 24) div 25"
    using batches_length [OF p, of txns] by (simp add: batchSize_def)
  have d: "save_slices env tableName st 0 (batches batchSize txns) = (r, st')"
    using assms by (simp only: Save_slices)
  from assms have "save_loop env tableName st txns 0 = (r, st')" by (simp add: Save_as_loop)
  from save_loop_trace [OF this] obtain groups where
    g: "calls st' = calls st @ concat groups" and
    sr: "save_run tableName 0 (batches batchSize txns) groups r" by auto
  note sg = save_run_groups [OF sr]
  from sg have l2: "list_all2 (batch_calls tableName)
      (take (length groups) (batches batchSize txns)) groups" by simp
  from sg have le: "length groups \<le> length (batches batchSize txns)" by simp
  from sg have full: "r = None \<longrightarrow> length groups = length (batches batchSize txns)" by simp
  note ib = initial_batches_groups [OF l2]
  have fl: "\<forall>k e. k < length groups \<longrightarrow> batch_outcome tableName (groups ! k) = Some e \<longrightarrow>
      Suc k = length groups \<and> r = Some (BatchFailedAt (batchSize * k) e)"
  proof (intro allI impI)
    fix k e
    assume "k < length groups" and "batch_outcome tableName (groups ! k) = Some e"
    from save_run_failed_group [OF sr this]
    show "Suc k = length groups \<and> r = Some (BatchFailedAt (batchSize * k) e)" by simp
  qed
  have pre: "\<forall>k. Suc k < length groups \<longrightarrow> batch_outcome tableName (groups ! k) = None"
  proof (intro allI impI)
    fix k assume s: "Suc k < length groups"
    show "batch_outcome tableName (groups ! k) = None"
    proof (cases "batch_outcome tableName (groups ! k)")
      case (Some e)
      from s have "k < length groups" by simp
      from save_run_failed_group [OF sr this Some] s show ?thesis by simp
    qed simp
  qed
  have mf: "(\<forall>g \<in> set groups. batch_outcome tableName g = None) \<longrightarrow>
      length groups < length (batches batchSize txns) \<longrightarrow>
      (\<exists>n. r = Some (BatchFailedAt (batchSize * length groups) (MarshalFailed n)))"
  proof (intro impI)
    assume al: "\<forall>g \<in> set groups. batch_outcome tableName g = None"
      and lt: "length groups < length (batches batchSize txns)"
    from save_run_all_succeeded [OF sr al] lt
    show "\<exists>n. r = Some (BatchFailedAt (batchSize * length groups) (MarshalFailed n))" by simp
  qed
  have iff: "r = None \<longleftrightarrow>
      length groups = length (batches batchSize txns) \<and>
      (\<forall>g \<in> set groups. batch_outcome tableName g = None)"
  proof
    assume "r = None"
    with sr have "save_run tableName 0 (batches batchSize txns) groups None" by simp
    then show "length groups = length (batches batchSize txns) \<and>
        (\<forall>g \<in> set groups. batch_outcome tableName g = None)" by (rule save_run_success)
  next
    assume h: "length groups = length (batches batchSize txns) \<and>
        (\<forall>g \<in> set groups. batch_outcome tableName g = None)"
    from save_run_all_succeeded [OF sr h [THEN conjunct2]] h [THEN conjunct1]
    show "r = None" by simp
  qed
  from g le l2 ib full pre fl iff mf
  have "\<exists>groups.
        calls st' = calls st @ concat groups \<and>
        length groups \<le> length (batches batchSize txns) \<and>
        list_all2 (batch_calls tableName)
          (take (length groups) (batches batchSize txns)) groups \<and>
        initial_batches (concat groups) = take (length groups) (batches batchSize txns) \<and>
        (r = None \<longrightarrow> length groups = length (batches batchSize txns)) \<and>
        (\<forall>k. Suc k < length groups \<longrightarrow> batch_outcome tableName (groups ! k) = None) \<and>
        (\<forall>k e. k < length groups \<longrightarrow> batch_outcome tableName (groups ! k) = Some e \<longrightarrow>
           Suc k = length groups \<and> r = Some (BatchFailedAt (batchSize * k) e)) \<and>
        (r = None \<longleftrightarrow>
           length groups = length (batches batchSize txns) \<and>
           (\<forall>g \<in> set groups. batch_outcome tableName g = None)) \<and>
        ((\<forall>g \<in> set groups. batch_outcome tableName g = None) \<longrightarrow>
           length groups < length (batches batchSize txns) \<longrightarrow>
           (\<exists>n. r = Some (BatchFailedAt (batchSize * length groups) (MarshalFailed n))))"
    by (intro exI [of _ groups] conjI)
  with a b c d show ?thesis by (intro conjI)
qed

theorem Save_batches_witness:
  "fst (Save (example_env accepting_write) example_table example_state example_26) = None \<and>
   initial_batches (calls (snd
     (Save (example_env accepting_write) example_table example_state example_26))) =
     batches batchSize example_26 \<and>
   length (batches batchSize example_26) = 2 \<and>
   concat (batches batchSize example_26) = example_26 \<and>
   save_slices (example_env accepting_write) example_table example_state 0
     (batches batchSize example_26) =
     Save (example_env accepting_write) example_table example_state example_26"
proof -
  define S where "S = Save (example_env accepting_write) example_table example_state example_26"
  have h: "Save (example_env accepting_write) example_table example_state example_26 =
      (fst S, snd S)" by (simp add: S_def)
  have r: "fst S = None" unfolding S_def by (simp add: repo_eval example_26_def)
  have c0: "calls example_state = []" by (simp add: example_state_def)
  have n: "(length example_26 + 24) div 25 = 2" by (simp add: example_26_def)
  note sb = Save_batches [OF h]
  note a = sb [THEN conjunct1]
  note c = sb [THEN conjunct2, THEN conjunct2, THEN conjunct1]
  note d = sb [THEN conjunct2, THEN conjunct2, THEN conjunct2, THEN conjunct1]
  from sb [THEN conjunct2, THEN conjunct2, THEN conjunct2, THEN conjunct2] obtain groups where
    g: "calls (snd S) = calls example_state @ concat groups" and
    i: "initial_batches (concat groups) = take (length groups) (batches batchSize example_26)" and
    l: "fst S = None \<longrightarrow> length groups = length (batches batchSize example_26)"
    by (elim exE conjE)
  from l r have lg: "length groups = length (batches batchSize example_26)" by (rule mp)
  from i lg have "initial_batches (concat groups) = batches batchSize example_26" by simp
  with g c0 have ib: "initial_batches (calls (snd S)) = batches batchSize example_26" by simp
  from c n have len: "length (batches batchSize example_26) = 2" by (simp only:)
  from d have sl: "save_slices (example_env accepting_write) example_table example_state 0
     (batches batchSize example_26) = S" by simp
  from r ib len a sl show ?thesis unfolding S_def by (intro conjI)
qed

text \<open>
  Claim C8. The calls of \<open>BatchWriteItem\<close> made for a batch are exactly its first
  write and the retries that follow. As long as a response has unprocessed items and
  fewer than three retries have been made, a retry is made, and it sends exactly the
  unprocessed items of that response; there are at most three retries (four
  submissions in all). A response without unprocessed items is the last call for the
  batch, and the batch succeeds: when the first response leaves items unprocessed and
  the response to the retry leaves none, the store is called exactly twice.
\<close>

theorem saveBatch_retries:
  assumes "saveBatch env tableName st batch = (r, st')"
  shows "\<exists>cs. calls st' = calls st @ cs \<and> length cs \<le> 4 \<and>
           store_run env (snd (build_requests env (world st) [] batch)) cs (world st') \<and>
           (cs = [] \<longrightarrow> (\<exists>n. r = Some (MarshalFailed n))) \<and>
           (cs \<noteq> [] \<longrightarrow> kind (cs ! 0) = InitialWrite batch \<and>
              (\<exists>rs. fst (build_requests env (world st) [] batch) = Inr rs \<and>
                    request (cs ! 0) = [tableName \<mapsto> rs]) \<and>
              r = batch_outcome tableName cs) \<and>
           (\<forall>j u. j < length cs \<longrightarrow> response (cs ! j) = Some u \<longrightarrow> u \<noteq> Map.empty \<longrightarrow>
              j < maxRetries \<longrightarrow> Suc j < length cs) \<and>
           (\<forall>j. Suc j < length cs \<longrightarrow>
              (\<exists>u. response (cs ! j) = Some u \<and> u \<noteq> Map.empty \<and>
                   request (cs ! Suc j) = u \<and> kind (cs ! Suc j) = RetryWrite (Suc j))) \<and>
           (\<forall>j. j < length cs \<longrightarrow> response (cs ! j) = Some Map.empty \<longrightarrow>
              Suc j = length cs \<and> r = None) \<and>
           (\<forall>u. 0 < length cs \<longrightarrow> response (cs ! 0) = Some u \<longrightarrow> u \<noteq> Map.empty \<longrightarrow>
              1 < length cs \<and> request (cs ! 1) = u \<and>
              (response (cs ! 1) = Some Map.empty \<longrightarrow> length cs = 2 \<and> r = None))"
proof -
  from saveBatch_trace [OF assms] obtain cs where
    ct: "calls st' = calls st @ cs \<and>
        (if cs = [] then \<exists>n. r = Some (MarshalFailed n)
         else batch_calls tableName batch cs \<and> r = batch_outcome tableName cs)" ..
  note c = ct [THEN conjunct1] and t = ct [THEN conjunct2]
  note sp = saveBatch_store_progress [OF assms c]
  note sr = sp [THEN conjunct1] and rq = sp [THEN conjunct2, THEN conjunct1]
    and pr = sp [THEN conjunct2, THEN conjunct2]
  show ?thesis
  proof (cases "cs = []")
    case True
    with t have m: "\<exists>n. r = Some (MarshalFailed n)" by simp
    from c True have c': "calls st' = calls st @ []" by simp
    from sr True have sr': "store_run env (snd (build_requests env (world st) [] batch)) []
        (world st')" by simp
    from c' sr' m show ?thesis by (intro exI [of _ "[]"]) simp
  next
    case False
    with t have bc: "batch_calls tableName batch cs" and out: "r = batch_outcome tableName cs"
      by simp_all
    note hd = batch_calls_head [OF bc]
    note k = hd [THEN conjunct2, THEN conjunct1]
    from hd [THEN conjunct2, THEN conjunct2, THEN conjunct2]
    have l: "length cs \<le> 4" by (simp add: maxRetries_def)
    have e: "cs = [] \<longrightarrow> (\<exists>n. r = Some (MarshalFailed n))" using False by simp
    have ko: "cs \<noteq> [] \<longrightarrow> kind (cs ! 0) = InitialWrite batch \<and>
        (\<exists>rs. fst (build_requests env (world st) [] batch) = Inr rs \<and>
              request (cs ! 0) = [tableName \<mapsto> rs]) \<and>
        r = batch_outcome tableName cs" using k out rq False by simp
    have ch: "\<forall>j. Suc j < length cs \<longrightarrow>
        (\<exists>u. response (cs ! j) = Some u \<and> u \<noteq> Map.empty \<and>
             request (cs ! Suc j) = u \<and> kind (cs ! Suc j) = RetryWrite (Suc j))"
    proof (intro allI impI)
      fix j assume "Suc j < length cs"
      then show "\<exists>u. response (cs ! j) = Some u \<and> u \<noteq> Map.empty \<and>
             request (cs ! Suc j) = u \<and> kind (cs ! Suc j) = RetryWrite (Suc j)"
        by (rule batch_calls_chain [OF bc])
    qed
    have la: "\<forall>j. j < length cs \<longrightarrow> response (cs ! j) = Some Map.empty \<longrightarrow>
        Suc j = length cs \<and> r = None"
    proof (intro allI impI)
      fix j assume a: "j < length cs" and b: "response (cs ! j) = Some Map.empty"
      from batch_calls_empty_response_last [OF bc a b] out
      show "Suc j = length cs \<and> r = None" by simp
    qed
    have tw: "\<forall>u. 0 < length cs \<longrightarrow> response (cs ! 0) = Some u \<longrightarrow> u \<noteq> Map.empty \<longrightarrow>
        1 < length cs \<and> request (cs ! 1) = u \<and>
        (response (cs ! 1) = Some Map.empty \<longrightarrow> length cs = 2 \<and> r = None)"
    proof (intro allI impI)
      fix u
      assume p0: "0 < length cs" and r0: "response (cs ! 0) = Some u" and ne: "u \<noteq> Map.empty"
      have "0 < maxRetries" by (simp add: maxRetries_def)
      with pr [rule_format, OF p0 r0 ne] have two: "Suc 0 < length cs" by simp
      from ch [rule_format, OF two] r0 have rq: "request (cs ! Suc 0) = u" by auto
      have fin: "response (cs ! 1) = Some Map.empty \<longrightarrow> length cs = 2 \<and> r = None"
      proof
        assume "response (cs ! 1) = Some Map.empty"
        then have "response (cs ! Suc 0) = Some Map.empty" by simp
        from la [rule_format, OF two this] show "length cs = 2 \<and> r = None" by simp
      qed
      from two rq fin show "1 < length cs \<and> request (cs ! 1) = u \<and>
          (response (cs ! 1) = Some Map.empty \<longrightarrow> length cs = 2 \<and> r = None)" by simp
    qed
    from c l sr e ko pr ch la tw show ?thesis by (intro exI [of _ cs] conjI)
  qed
qed

theorem saveBatch_retries_witness:
  "fst (saveBatch (example_env (flaky_write 2)) example_table example_state example_three) = None \<and>
   length (calls (snd
     (saveBatch (example_env (flaky_write 2)) example_table example_state example_three))) = 2 \<and>
   request (calls (snd
     (saveBatch (example_env (flaky_write 2)) example_table example_state example_three)) ! 1) =
     [example_table \<mapsto> [PutRequest 1, PutRequest 2]] \<and>
   store_calls (world (snd
     (saveBatch (example_env (flaky_write 2)) example_table example_state example_three))) = 2 \<and>
   written (world (snd
     (saveBatch (example_env (flaky_write 2)) example_table example_state example_three))) =
     [3, 1, 2]"
proof -
  define S where
    "S = saveBatch (example_env (flaky_write 2)) example_table example_state example_three"
  have h: "saveBatch (example_env (flaky_write 2)) example_table example_state example_three =
      (fst S, snd S)" by (simp add: S_def)
  have c0: "calls example_state = []" by (simp add: example_state_def)
  have pos: "0 < length (calls (snd S))"
    unfolding S_def by (simp add: repo_eval example_three_def)
  have r0: "response (calls (snd S) ! 0) = Some [example_table \<mapsto> [PutRequest 1, PutRequest 2]]"
    unfolding S_def by (simp add: repo_eval example_three_def)
  have ne: "[example_table \<mapsto> [PutRequest (1::nat), PutRequest 2]] \<noteq> Map.empty" by simp
  have r1: "response (calls (snd S) ! 1) = Some Map.empty"
    unfolding S_def by (simp add: repo_eval example_three_def)
  have sc: "store_calls (world (snd S)) = 2"
    unfolding S_def by (simp add: repo_eval example_three_def)
  have wr: "written (world (snd S)) = [3, 1, 2]"
    unfolding S_def by (simp add: repo_eval example_three_def)
  from saveBatch_retries [OF h] obtain cs where
    c: "calls (snd S) = calls example_state @ cs" and
    pr: "\<forall>j u. j < length cs \<longrightarrow> response (cs ! j) = Some u \<longrightarrow> u \<noteq> Map.empty \<longrightarrow>
        j < maxRetries \<longrightarrow> Suc j < length cs" and
    ch: "\<forall>j. Suc j < length cs \<longrightarrow>
        (\<exists>u. response (cs ! j) = Some u \<and> u \<noteq> Map.empty \<and>
             request (cs ! Suc j) = u \<and> kind (cs ! Suc j) = RetryWrite (Suc j))" and
    la: "\<forall>j. j < length cs \<longrightarrow> response (cs ! j) = Some Map.empty \<longrightarrow>
        Suc j = length cs \<and> fst S = None" and
    tw: "\<forall>u. 0 < length cs \<longrightarrow> response (cs ! 0) = Some u \<longrightarrow> u \<noteq> Map.empty \<longrightarrow>
        1 < length cs \<and> request (cs ! 1) = u \<and>
        (response (cs ! 1) = Some Map.empty \<longrightarrow> length cs = 2 \<and> fst S = None)"
    by (elim exE conjE) (rule that)
  from c c0 have cs: "cs = calls (snd S)" by simp
  from pr [rule_format, of 0] pos r0 ne have two: "Suc 0 < length (calls (snd S))"
    unfolding cs by (simp add: maxRetries_def)
  from ch [rule_format, of 0] two r0
  have rq: "request (calls (snd S) ! 1) = [example_table \<mapsto> [PutRequest 1, PutRequest 2]]"
    unfolding cs by auto
  from la [rule_format, of 1] two r1
  have "Suc 1 = length (calls (snd S))" and "fst S = None" unfolding cs by simp_all
  then have "fst S = None" and "length (calls (snd S)) = 2" by simp_all
  with rq sc wr show ?thesis unfolding S_def by (intro conjI)
qed

text \<open>
  Claim C9. When unprocessed items remain after the retries of a batch, Save fails and
  reports how many items of the whole call remain unwritten. The number in the error is
  the number of unprocessed items of the failing batch alone; the batches after it are
  not submitted and are not counted. With 26 transactions and a store that never writes
  the first item of a request, the error reports 1 item, while 24 of the 26 items have
  been written.
\<close>

theorem reported_count_is_of_failing_batch:
  "fst (Save (example_env stuck_write) example_table example_state example_26) =
     Some (BatchFailedAt 0 (RetriesExhausted 3 1)) \<and>
   length (written (world (snd
     (Save (example_env stuck_write) example_table example_state example_26)))) = 24 \<and>
   length example_26 = 26"
  by (simp add: repo_eval example_26_def)

text \<open>
  Claim C9, as the code has it. When the response to the third retry of a batch still
  has unprocessed items, that call is the last call of the run: Save fails there, the
  error names the index at which the batch starts and the number of write requests that
  this last response lists under the repository's table. The batches before it have
  been written and nothing further is sent for them; the batches after it are never
  submitted.
\<close>

theorem Save_retries_exhausted:
  assumes "Save env tableName st txns = (r, st')"
      and "calls st' = calls st @ new"
      and "j < length new"
      and "kind (new ! j) = RetryWrite maxRetries"
      and "response (new ! j) = Some u"
      and "u \<noteq> Map.empty"
  shows "Suc j = length new \<and>
         (\<exists>k. 0 < k \<and> k \<le> length (batches batchSize txns) \<and>
              initial_batches new = take k (batches batchSize txns) \<and>
              r = Some (BatchFailedAt (batchSize * (k - 1))
                    (RetriesExhausted maxRetries (length (items_of u tableName)))))"
proof -
  from assms(1) have "save_loop env tableName st txns 0 = (r, st')" by (simp add: Save_as_loop)
  from save_loop_trace [OF this] obtain groups where
    g: "calls st' = calls st @ concat groups" and
    sr: "save_run tableName 0 (batches batchSize txns) groups r" by auto
  from g assms(2) have new: "new = concat groups" by simp
  note ex = save_run_exhausted [OF sr assms(3,4,5,6) [unfolded new]]
  note sg = save_run_groups [OF sr]
  from sg have l2: "list_all2 (batch_calls tableName)
      (take (length groups) (batches batchSize txns)) groups" by simp
  from ex have e1: "Suc j = length new" and e2: "groups \<noteq> []" and
    e3: "r = Some (BatchFailedAt (batchSize * (length groups - 1))
          (RetriesExhausted maxRetries (length (items_of u tableName))))"
    by (simp_all add: new)
  from e2 sg initial_batches_groups [OF l2] e3
  have "0 < length groups \<and> length groups \<le> length (batches batchSize txns) \<and>
        initial_batches new = take (length groups) (batches batchSize txns) \<and>
        r = Some (BatchFailedAt (batchSize * (length groups - 1))
              (RetriesExhausted maxRetries (length (items_of u tableName))))"
    by (simp add: new)
  then have "\<exists>k. 0 < k \<and> k \<le> length (batches batchSize txns) \<and>
        initial_batches new = take k (batches batchSize txns) \<and>
        r = Some (BatchFailedAt (batchSize * (k - 1))
              (RetriesExhausted maxRetries (length (items_of u tableName))))" ..
  with e1 show ?thesis ..
qed

theorem Save_retries_exhausted_witness:
  "length (calls (snd
     (Save (example_env stuck_write) example_table example_state example_three))) = Suc 3 \<and>
   fst (Save (example_env stuck_write) example_table example_state example_three) =
     Some (BatchFailedAt 0 (RetriesExhausted 3 1)) \<and>
   written (world (snd
     (Save (example_env stuck_write) example_table example_state example_three))) = [2, 3]"
proof -
  define S where "S = Save (example_env stuck_write) example_table example_state example_three"
  have h: "Save (example_env stuck_write) example_table example_state example_three =
      (fst S, snd S)" by (simp add: S_def)
  have h2: "calls (snd S) = calls example_state @ calls (snd S)"
    by (simp add: example_state_def)
  have h3: "3 < length (calls (snd S))"
    unfolding S_def by (simp add: repo_eval example_three_def)
  have h4: "kind (calls (snd S) ! 3) = RetryWrite maxRetries"
    unfolding S_def by (simp add: repo_eval example_three_def)
  have h5: "response (calls (snd S) ! 3) = Some [example_table \<mapsto> [PutRequest 1]]"
    unfolding S_def by (simp add: repo_eval example_three_def)
  have h6: "[example_table \<mapsto> [PutRequest (1::nat)]] \<noteq> Map.empty" by simp
  have wr: "written (world (snd S)) = [2, 3]"
    unfolding S_def by (simp add: repo_eval example_three_def)
  note ex = Save_retries_exhausted [OF h h2 h3 h4 h5 h6]
  note l = ex [THEN conjunct1]
  from ex [THEN conjunct2] obtain k where
    kk: "0 < k \<and> k \<le> length (batches batchSize example_three) \<and>
      initial_batches (calls (snd S)) = take k (batches batchSize example_three) \<and>
      fst S = Some (BatchFailedAt (batchSize * (k - 1))
          (RetriesExhausted maxRetries
            (length (items_of [example_table \<mapsto> [PutRequest (1::nat)]] example_table))))" ..
  note k0 = kk [THEN conjunct1] and kl = kk [THEN conjunct2, THEN conjunct1]
    and r = kk [THEN conjunct2, THEN conjunct2, THEN conjunct2]
  have p: "0 < batchSize" by (simp add: batchSize_def)
  have "length (batches batchSize example_three) = (length example_three + batchSize - 1) div batchSize"
    using p by (rule batches_length)
  also have "\<dots> = 1" by (simp add: batchSize_def example_three_def)
  finally have "k \<le> 1" using kl by simp
  with k0 have k1: "k - 1 = 0" by simp
  have n: "length (items_of [example_table \<mapsto> [PutRequest (1::nat)]] example_table) = 1"
    by (simp add: items_of_def)
  from r have "fst S = Some (BatchFailedAt 0 (RetriesExhausted 3 1))"
    unfolding k1 n by (simp add: maxRetries_def)
  with l [symmetric] wr show ?thesis unfolding S_def by (intro conjI)
qed

end
